theory Spec2Isabelle
  imports Main "HOL-Library.Word" "HOL-Library.Monad_Syntax" "HOL-Library.Multiset"
begin

unbundle bit_operations_syntax

section \<open>GSHE: encryption, compression and reconstruction of grey-scale images\<close>

text \<open>
  A shallow embedding of the Go package \<open>gshe\<close>. Bytes are \<open>8 word\<close>, so \<open>+\<close>, \<open>-\<close> and
  \<open>*\<close> wrap modulo 256 as Go's \<open>byte\<close> arithmetic does. A Go function has three kinds
  of outcome: it returns a value, it returns an error, or it does not return (a run-time
  panic such as an index out of range, or a loop that never ends). Functions that can
  return an error have the result type \<open>(error + 'a) option\<close>: \<open>Some (Inr v)\<close> is the value,
  \<open>Some (Inl e)\<close> the returned error and \<open>None\<close> a call that does not return. Internal
  helpers without an error result return \<open>'a option\<close>.
\<close>

subsection \<open>Data model\<close>

type_synonym byte = "8 word"

text \<open>The Go array type \<open>[4]byte\<close>: one 2x2 block, or the four neighbours of a pixel.\<close>

type_synonym quad = "byte \<times> byte \<times> byte \<times> byte"

datatype error = InvalidImageData | InvalidQuantization | CodecError | SaltError

text \<open>
  The four structs share their shape fields, so the records extend a common one; the
  field names are those of the source. \<open>Width\<close> and \<open>Height\<close> are Go \<open>int\<close>s.
\<close>

record shape =
  Width :: int
  Height :: int
  PadWidth :: bool
  PadHeight :: bool

record Image = shape +
  Image :: "byte list"

record salted = shape +
  Salt :: "byte list"

record EncryptedImage = salted +
  Halfimage :: "byte list"

record quantized = salted +
  Quarterimage :: "byte list"
  Qtable :: "byte list"

record CompressedImage = quantized +
  EncQdiffs :: "byte list"

record compressedImage = quantized +
  Qdiffs :: "byte list"

subsection \<open>Slices and counted loops\<close>

text \<open>Reading and writing a slice element; out of range is a panic.\<close>

definition at :: "'a list \<Rightarrow> nat \<Rightarrow> 'a option" where
  "at xs i = (if i < length xs then Some (xs ! i) else None)"

definition put :: "'a list \<Rightarrow> nat \<Rightarrow> 'a \<Rightarrow> 'a list option" where
  "put xs i v = (if i < length xs then Some (xs[i := v]) else None)"

text \<open>A loop over the index values \<open>is\<close>, in order, threading the mutated state.\<close>

fun for_each :: "nat list \<Rightarrow> (nat \<Rightarrow> 'a \<Rightarrow> 'a option) \<Rightarrow> 'a \<Rightarrow> 'a option" where
  "for_each [] f a = Some a"
| "for_each (i # is) f a = (case f i a of None \<Rightarrow> None | Some a' \<Rightarrow> for_each is f a')"

text \<open>The values of \<open>for y := 0; y < n; y += 2\<close>.\<close>

definition evens_below :: "nat \<Rightarrow> nat list" where
  "evens_below n = filter even [0..<n]"

text \<open>Go's \<open>%\<close> on \<open>int\<close> truncates towards zero, and \<open>int\<close> arithmetic wraps at 64 bits.\<close>

definition go_rem :: "int \<Rightarrow> int \<Rightarrow> int" where
  "go_rem a b = sgn a * (\<bar>a\<bar> mod \<bar>b\<bar>)"

definition int64 :: "int \<Rightarrow> int" where
  "int64 k = signed_take_bit 63 k"

subsection \<open>NewImage\<close>

text \<open>
  \<open>copy(dst[lo:], src)\<close>: slicing \<open>dst\<close> from \<open>lo\<close> panics when \<open>lo\<close> exceeds its length;
  \<open>copy\<close> then writes as many elements as fit into the remainder of \<open>dst\<close>.
\<close>

definition copy_from :: "'a list \<Rightarrow> nat \<Rightarrow> 'a list \<Rightarrow> 'a list option" where
  "copy_from dst lo src =
     (if lo > length dst then None
      else let n = min (length dst - lo) (length src)
           in Some (take lo dst @ take n src @ drop (lo + n) dst))"

text \<open>\<open>xs[lo:hi]\<close>.\<close>

definition slice :: "'a list \<Rightarrow> nat \<Rightarrow> nat \<Rightarrow> 'a list option" where
  "slice xs lo hi = (if lo \<le> hi \<and> hi \<le> length xs then Some (take (hi - lo) (drop lo xs)) else None)"

text \<open>
  \<open>make([]byte, 0, n)\<close> panics (cap out of range) when \<open>n\<close> is negative or above the
  allocation limit of the runtime, \<open>2 ^ 48\<close> bytes on 64-bit Linux.
\<close>

definition maxAlloc :: int where
  "maxAlloc = 2 ^ 48"

text \<open>
  \<open>padded\<close> is made with length 0 (and capacity \<open>pw * ph\<close>), and the rows are copied only
  when the width is odd. Inside the loop \<open>width\<close> and \<open>height\<close> are positive, so the
  index arithmetic is done on naturals.
\<close>

definition NewImage :: "byte list \<Rightarrow> int \<Rightarrow> int \<Rightarrow> (error + Image) option" where
  "NewImage data width height =
     (if int (length data) \<noteq> int64 (width * height) then Some (Inl InvalidImageData)
      else if go_rem width 2 = 0 \<and> go_rem height 2 = 0 then
        Some (Inr \<lparr>Width = width, Height = height, PadWidth = False, PadHeight = False,
                   Image = data\<rparr>)
      else
        let pw = int64 (width + go_rem width 2);
            ph = int64 (height + go_rem height 2)
        in if int64 (pw * ph) < 0 \<or> int64 (pw * ph) > maxAlloc then None
           else
             case (if go_rem width 2 \<noteq> 0 then
                     for_each [0..<nat height]
                       (\<lambda>y padded.
                          case slice data (y * nat width) ((y + 1) * nat width) of
                            None \<Rightarrow> None
                          | Some row \<Rightarrow> copy_from padded (y * nat pw) row)
                       []
                   else Some [])
             of None \<Rightarrow> None
              | Some padded \<Rightarrow>
                  Some (Inr \<lparr>Width = pw, Height = ph,
                             PadWidth = (go_rem width 2 \<noteq> 0), PadHeight = (go_rem height 2 \<noteq> 0),
                             Image = padded\<rparr>))"

subsection \<open>The keystream and the random source\<close>

text \<open>
  The constructor \<open>newRNG(key, salt)\<close> and \<open>genSalt\<close> belong to a file of the package that is
  not part of the sources at hand; they are parameters of the model. \<open>newRNG key salt\<close> is
  the keystream, an endless sequence of bytes that depends on the key and the salt only;
  a reader over it is the number of bytes consumed so far.
\<close>

type_synonym keystream = "nat \<Rightarrow> byte"

definition Read :: "keystream \<Rightarrow> nat \<Rightarrow> nat \<Rightarrow> byte list \<times> nat" where
  "Read ks pos n = (map ks [pos..<pos + n], pos + n)"

text \<open>The keystream that yields the given bytes and zeros from then on.\<close>

definition stream_of :: "byte list \<Rightarrow> keystream" where
  "stream_of bs i = (if i < length bs then bs ! i else 0)"

text \<open>
  \<open>source.Int63\<close>. The top bit of the first byte is masked, so the \<open>int64\<close> is not negative
  and below \<open>2 ^ 63\<close>: it is modelled as a natural number, with the shifts and the
  bitwise or of the source.
\<close>

definition Int63 :: "keystream \<Rightarrow> nat \<Rightarrow> nat \<times> nat" where
  "Int63 ks pos =
     (case Read ks pos 8 of (buf, pos') \<Rightarrow>
        (push_bit 56 (unat (buf ! 0 AND 0x7f)) OR push_bit 48 (unat (buf ! 1)) OR
         push_bit 40 (unat (buf ! 2)) OR push_bit 32 (unat (buf ! 3)) OR
         push_bit 24 (unat (buf ! 4)) OR push_bit 16 (unat (buf ! 5)) OR
         push_bit 8 (unat (buf ! 6)) OR unat (buf ! 7), pos'))"

text \<open>
  The methods of \<open>math/rand.Rand\<close> (Go standard library) that \<open>Intn\<close> runs over a \<open>Source\<close>
  that is not a \<open>Source64\<close>:
  \<^verbatim>\<open>
  func (r *Rand) Int31() int32 { return int32(r.Int63() >> 32) }
  func (r *Rand) Int31n(n int32) int32 {
      if n&(n-1) == 0 { return r.Int31() & (n - 1) }
      max := int32((1 << 31) - 1 - (1<<31)%uint32(n))
      v := r.Int31()
      for v > max { v = r.Int31() }
      return v % n
  }
  func (r *Rand) Intn(n int) int {
      if n <= 0 { panic("invalid argument to Intn") }
      if n <= 1<<31-1 { return int(r.Int31n(int32(n))) }
      return int(r.Int63n(int64(n)))
  }
  \<close>
  and \<open>Int63n\<close> is \<open>Int31n\<close> with \<open>Int63\<close> and \<open>1 << 63\<close>. All values are non-negative.
\<close>

definition Int31 :: "keystream \<Rightarrow> nat \<Rightarrow> nat \<times> nat" where
  "Int31 ks pos = (case Int63 ks pos of (v, pos') \<Rightarrow> (drop_bit 32 v, pos'))"

partial_function (option) Int31_upto :: "keystream \<Rightarrow> nat \<Rightarrow> nat \<Rightarrow> (nat \<times> nat) option" where
  "Int31_upto ks mx pos =
     (case Int31 ks pos of (v, pos') \<Rightarrow> if v > mx then Int31_upto ks mx pos' else Some (v, pos'))"

partial_function (option) Int63_upto :: "keystream \<Rightarrow> nat \<Rightarrow> nat \<Rightarrow> (nat \<times> nat) option" where
  "Int63_upto ks mx pos =
     (case Int63 ks pos of (v, pos') \<Rightarrow> if v > mx then Int63_upto ks mx pos' else Some (v, pos'))"

definition Int31n :: "keystream \<Rightarrow> nat \<Rightarrow> nat \<Rightarrow> (nat \<times> nat) option" where
  "Int31n ks pos n =
     (if n AND (n - 1) = 0 then
        (case Int31 ks pos of (v, pos') \<Rightarrow> Some (v AND (n - 1), pos'))
      else
        (case Int31_upto ks (2 ^ 31 - 1 - 2 ^ 31 mod n) pos of
           None \<Rightarrow> None
         | Some (v, pos') \<Rightarrow> Some (v mod n, pos')))"

definition Int63n :: "keystream \<Rightarrow> nat \<Rightarrow> nat \<Rightarrow> (nat \<times> nat) option" where
  "Int63n ks pos n =
     (if n AND (n - 1) = 0 then
        (case Int63 ks pos of (v, pos') \<Rightarrow> Some (v AND (n - 1), pos'))
      else
        (case Int63_upto ks (2 ^ 63 - 1 - 2 ^ 63 mod n) pos of
           None \<Rightarrow> None
         | Some (v, pos') \<Rightarrow> Some (v mod n, pos')))"

definition Intn :: "keystream \<Rightarrow> nat \<Rightarrow> nat \<Rightarrow> (nat \<times> nat) option" where
  "Intn ks pos n =
     (if n = 0 then None
      else if n \<le> 2 ^ 31 - 1 then Int31n ks pos n
      else Int63n ks pos n)"

subsection \<open>The permutation\<close>

text \<open>
  \<open>permuteHalfimage\<close> and \<open>unpermuteBlocks\<close> take a \<open>*rand.Rand\<close> and use its method \<open>Intn\<close>
  only. The generator is a state \<open>s\<close> with a function \<open>intn\<close> from the state and the bound
  to the drawn number and the next state (\<open>None\<close>: the draw does not return). \<open>Intn\<close> panics
  on a bound that is not positive, whatever the source.
\<close>

type_synonym 's rand = "'s \<Rightarrow> nat \<Rightarrow> (nat \<times> 's) option"

function permuteHalfimage :: "'s rand \<Rightarrow> 's \<Rightarrow> 'a list \<Rightarrow> ('a list \<times> 's) option" where
  "permuteHalfimage intn s p =
     (if length p > 0 then
        if length p div 2 = 0 then None
        else
          case intn s (length p div 2) of
            None \<Rightarrow> None
          | Some (r, s') \<Rightarrow>
              let n = r * 2 in
              if n \<ge> length p then None
              else
                let p1 = p[0 := p ! n, n := p ! 0] in
                if n + 1 \<ge> length p then None
                else
                  let p2 = p1[1 := p1 ! (n + 1), n + 1 := p1 ! 1] in
                  (case permuteHalfimage intn s' (drop 2 p2) of
                     None \<Rightarrow> None
                   | Some (rest, s'') \<Rightarrow> Some (take 2 p2 @ rest, s''))
      else Some ([], s))"
  by pat_completeness auto
termination
  by (relation "measure (\<lambda>(intn, s, p). length p)") auto

declare permuteHalfimage.simps [simp del]

text \<open>The loop of \<open>unpermuteBlocks\<close> over the suffixes of \<open>indices\<close>.\<close>

function swap_indices :: "'s rand \<Rightarrow> 's \<Rightarrow> 'a list \<Rightarrow> ('a list \<times> 's) option" where
  "swap_indices intn s idx =
     (if length idx > 0 then
        case intn s (length idx) of
          None \<Rightarrow> None
        | Some (n, s') \<Rightarrow>
            if n \<ge> length idx then None
            else
              let idx1 = idx[0 := idx ! n, n := idx ! 0] in
              (case swap_indices intn s' (drop 1 idx1) of
                 None \<Rightarrow> None
               | Some (rest, s'') \<Rightarrow> Some (take 1 idx1 @ rest, s''))
      else Some ([], s))"
  by pat_completeness auto
termination
  by (relation "measure (\<lambda>(intn, s, idx). length idx)") auto

declare swap_indices.simps [simp del]

definition unpermuteBlocks :: "'s rand \<Rightarrow> 's \<Rightarrow> quad list \<Rightarrow> (quad list \<times> 's) option" where
  "unpermuteBlocks intn s blocks =
     (case swap_indices intn s [0..<length blocks] of
        None \<Rightarrow> None
      | Some (indices, s') \<Rightarrow>
          (case for_each [0..<length indices]
                  (\<lambda>i ret. case at blocks i of None \<Rightarrow> None | Some b \<Rightarrow> put ret (indices ! i) b)
                  (replicate (length blocks) (0, 0, 0, 0))
           of None \<Rightarrow> None
            | Some ret \<Rightarrow> Some (ret, s')))"

subsection \<open>Context adaptive interpolation\<close>

definition absdiff :: "byte \<Rightarrow> byte \<Rightarrow> int" where
  "absdiff x y = (if x > y then uint (x - y) else uint (y - x))"

definition minmaxmedian :: "quad \<Rightarrow> byte \<times> byte \<times> byte" where
  "minmaxmedian p = (case p of (p0, p1, p2, p3) \<Rightarrow>
     let (b0, b1) = (if p0 < p1 then (p0, p1) else (p1, p0));
         (b2, b3) = (if p2 < p3 then (p2, p3) else (p3, p2));
         (b0, b2) = (if b0 > b2 then (b2, b0) else (b0, b2));
         (b1, b3) = (if b1 > b3 then (b3, b1) else (b1, b3))
     in (b0, b3, b1))"

definition cai :: "quad \<Rightarrow> int \<Rightarrow> byte" where
  "cai neighbors threshold = (case neighbors of (n0, n1, n2, n3) \<Rightarrow>
     case minmaxmedian neighbors of (mn, mx, median) \<Rightarrow>
       if uint mx - uint mn \<le> threshold then
         (let sum = uint n0 + uint n1 + uint n2 + uint n3 in word_of_int ((sum + 2) div 4))
       else if absdiff n1 n3 - absdiff n0 n2 > threshold then
         (let sum = uint n0 + uint n2 in word_of_int ((sum + 1) div 2))
       else if absdiff n0 n2 - absdiff n1 n3 > threshold then
         (let sum = uint n1 + uint n3 in word_of_int ((sum + 1) div 2))
       else median)"


text \<open>
  \<open>interpolateBlocks\<close> fills components 1 and 2 of every block in place, in row order.
  Inside the loops \<open>bw\<close> and \<open>bh\<close> are positive; \<open>up\<close> and \<open>left\<close> are read only when
  \<open>y > 0\<close> and \<open>x > 0\<close>, so the index arithmetic is done on naturals.
\<close>

definition q0 :: "quad \<Rightarrow> byte" where "q0 b = (case b of (b0, b1, b2, b3) \<Rightarrow> b0)"
definition q3 :: "quad \<Rightarrow> byte" where "q3 b = (case b of (b0, b1, b2, b3) \<Rightarrow> b3)"

definition interpolateBlocks :: "quad list \<Rightarrow> nat \<Rightarrow> nat \<Rightarrow> int \<Rightarrow> quad list option" where
  "interpolateBlocks blocks bw bh threshold =
     for_each [0..<bh] (\<lambda>y blocks.
       for_each [0..<bw] (\<lambda>x blocks.
         let i = y * bw + x;
             up = (y - 1) * bw + x;
             right = y * bw + x + 1;
             down = (y + 1) * bw + x;
             left = y * bw + x - 1
         in do {
           (c0, c1, c2, c3) \<leftarrow> at blocks i;
           n0 \<leftarrow> (if y > 0 then map_option q3 (at blocks up) else Some c3);
           n1 \<leftarrow> (if x + 1 < bw then map_option q0 (at blocks right) else Some c0);
           let blocks = blocks[i := (c0, cai (n0, n1, c3, c0) threshold, c2, c3)];
           (c0, c1, c2, c3) \<leftarrow> at blocks i;
           n2 \<leftarrow> (if y + 1 < bh then map_option q0 (at blocks down) else Some c0);
           n3 \<leftarrow> (if x > 0 then map_option q3 (at blocks left) else Some c3);
           Some (blocks[i := (c0, c1, cai (c0, c3, n2, n3) threshold, c3)])
         }) blocks) blocks"

subsection \<open>Encrypt\<close>

text \<open>
  The loops run only when \<open>Width\<close> and \<open>Height\<close> are positive, so inside them the
  coordinates and widths are naturals. \<open>maskAt\<close> computes \<open>y/2*Width/2 + x/2\<close> from left
  to right; \<open>halfimageAt\<close> computes \<open>(y/2)*Width + x\<close>.
\<close>

definition Encrypt ::
  "(byte list \<Rightarrow> byte list \<Rightarrow> keystream) \<Rightarrow> (error + byte list) \<Rightarrow> Image \<Rightarrow> byte list
   \<Rightarrow> (error + EncryptedImage) option" where
  "Encrypt newRNG genSalt img key =
     (case genSalt of
        Inl err \<Rightarrow> Some (Inl err)
      | Inr salt \<Rightarrow>
          let rng = newRNG key salt;
              w = nat (Width img);
              (maskb, pos) = Read rng 0 (length (Image img) div 4)
          in do {
            halfimage \<leftarrow>
              for_each (evens_below (nat (Height img))) (\<lambda>y halfimage.
                for_each (evens_below w) (\<lambda>x halfimage. do {
                  a \<leftarrow> at (Image img) (y * w + x);
                  m \<leftarrow> at maskb (y div 2 * w div 2 + x div 2);
                  halfimage \<leftarrow> put halfimage (y div 2 * w + x) (a + m);
                  b \<leftarrow> at (Image img) ((y + 1) * w + (x + 1));
                  put halfimage ((y + 1) div 2 * w + (x + 1)) (b + m)
                }) halfimage)
              (replicate (length (Image img) div 2) 0);
            (halfimage, pos') \<leftarrow> permuteHalfimage (Intn rng) pos halfimage;
            Some (Inr \<lparr>Width = Width img, Height = Height img,
                       PadWidth = PadHeight img, PadHeight = PadHeight img,
                       Salt = salt, Halfimage = halfimage\<rparr>)
          })"

subsection \<open>Compress\<close>

text \<open>\<open>math/bits\<close>: the number of one bits, and the number of trailing zero bits (8 for 0).\<close>

definition OnesCount8 :: "byte \<Rightarrow> nat" where
  "OnesCount8 x = length (filter (bit x) [0..<8])"

definition TrailingZeros8 :: "byte \<Rightarrow> nat" where
  "TrailingZeros8 x = length (takeWhile (\<lambda>i. \<not> bit x i) [0..<8])"

definition makeQtable :: "int list \<Rightarrow> byte \<Rightarrow> byte list option" where
  "makeQtable distortions quantization =
     (let logq = TrailingZeros8 quantization in
      for_each [0..<drop_bit logq (256 :: nat)] (\<lambda>k qtable. do {
        qtable \<leftarrow> put qtable k (push_bit logq (of_nat k));
        for_each [1..<unat quantization] (\<lambda>j qtable. do {
          dj \<leftarrow> at distortions j;
          cur \<leftarrow> at qtable k;
          dcur \<leftarrow> at distortions (unat cur);
          (if dj < dcur then put qtable k (push_bit logq (of_nat k) + of_nat j)
           else Some qtable)
        }) qtable
      }) (replicate (drop_bit logq (256 :: nat)) 0))"

text \<open>
  The accumulation of \<open>distortions\<close> (256 entries): the index \<open>i+j\<close> is a byte, so it is
  always in range; \<open>distortion * distortion\<close> is a product of bytes.
\<close>

definition accumulate :: "byte list \<Rightarrow> byte \<Rightarrow> int list" where
  "accumulate diffs quantization =
     (let logq = TrailingZeros8 quantization;
          maskq = quantization - 1
      in fold (\<lambda>v distortions.
           let k = drop_bit logq v;
               i = push_bit logq k
           in fold (\<lambda>j distortions.
                let distortion = (v - of_nat j) AND maskq
                in distortions[unat (i + of_nat j) :=
                     distortions ! unat (i + of_nat j) + uint (distortion * distortion)])
              [0..<unat quantization] distortions)
         diffs (replicate 256 0))"

definition compress :: "EncryptedImage \<Rightarrow> byte \<Rightarrow> (error + compressedImage) option" where
  "compress img quantization = do {
     diffs \<leftarrow>
       for_each (evens_below (length (Halfimage img))) (\<lambda>i diffs. do {
         a \<leftarrow> at (Halfimage img) (i + 1);
         b \<leftarrow> at (Halfimage img) i;
         put diffs (i div 2) (a - b)
       }) (replicate (length (Halfimage img) div 2) 0);
     (if OnesCount8 quantization \<noteq> 1 then Some (Inl InvalidQuantization)
      else
        let distortions = accumulate diffs quantization;
            logq = TrailingZeros8 quantization;
            qdiffs = map (drop_bit logq) diffs;
            quarterimage = map (\<lambda>i. Halfimage img ! (2 * i)) [0..<length diffs]
        in do {
          qtable \<leftarrow> makeQtable distortions quantization;
          Some (Inr \<lparr>Width = Width img, Height = Height img,
                     PadWidth = PadHeight img, PadHeight = PadHeight img,
                     Salt = Salt img, Quarterimage = quarterimage, Qtable = qtable,
                     Qdiffs = qdiffs\<rparr>)
        })
   }"

text \<open>
  The entropy coder \<open>fselib\<close> is an external library: \<open>Encode\<close> and \<open>Decode\<close> are parameters.
  Each takes the length of the destination buffer and the source bytes, and gives an
  error or the bytes written (the prefix \<open>dst[:n]\<close>).
\<close>

type_synonym codec = "nat \<Rightarrow> byte list \<Rightarrow> error + byte list"

definition Compress :: "codec \<Rightarrow> EncryptedImage \<Rightarrow> byte \<Rightarrow> (error + CompressedImage) option" where
  "Compress Encode img quantization = do {
     r \<leftarrow> compress img quantization;
     (case r of
        Inl err \<Rightarrow> Some (Inl err)
      | Inr cimg \<Rightarrow>
          (case Encode (length (Qdiffs cimg)) (Qdiffs cimg) of
             Inl err \<Rightarrow> Some (Inl err)
           | Inr encqdiffs \<Rightarrow>
               Some (Inr \<lparr>Width = Width cimg, Height = Height cimg,
                          PadWidth = PadWidth cimg, PadHeight = PadHeight cimg,
                          Salt = Salt img, Quarterimage = Quarterimage cimg,
                          Qtable = Qtable cimg, EncQdiffs = encqdiffs\<rparr>)))
   }"

subsection \<open>Decrypt\<close>

definition decrypt ::
  "(byte list \<Rightarrow> byte list \<Rightarrow> keystream) \<Rightarrow> compressedImage \<Rightarrow> byte list
   \<Rightarrow> (error + Image) option" where
  "decrypt newRNG img key =
     (let n = length (Quarterimage img);
          rng = newRNG key (Salt img);
          (maskb, pos) = Read rng 0 n;
          threshold = 20;
          w = nat (Width img);
          bw = nat (Width img) div 2;
          bh = nat (Height img) div 2
      in do {
        blocks \<leftarrow>
          for_each [0..<n] (\<lambda>i blocks. do {
            q \<leftarrow> at (Quarterimage img) i;
            d \<leftarrow> at (Qdiffs img) i;
            t \<leftarrow> at (Qtable img) (unat d);
            (b0, b1, b2, b3) \<leftarrow> at blocks i;
            Some (blocks[i := (q, b1, b2, q + t)])
          }) (replicate n (0, 0, 0, 0));
        (blocks, pos') \<leftarrow> unpermuteBlocks (Intn rng) pos blocks;
        blocks \<leftarrow>
          for_each [0..<length maskb] (\<lambda>i blocks. do {
            (b0, b1, b2, b3) \<leftarrow> at blocks i;
            Some (blocks[i := (b0 - maskb ! i, b1, b2, b3 - maskb ! i)])
          }) blocks;
        blocks \<leftarrow> interpolateBlocks blocks bw bh threshold;
        pixels \<leftarrow>
          for_each [0..<bh] (\<lambda>y pixels.
            for_each [0..<bw] (\<lambda>x pixels. do {
              (b0, b1, b2, b3) \<leftarrow> at blocks (y * bw + x);
              pixels \<leftarrow> put pixels (2 * y * w + 2 * x) b0;
              pixels \<leftarrow> put pixels (2 * y * w + (2 * x + 1)) b1;
              pixels \<leftarrow> put pixels ((2 * y + 1) * w + 2 * x) b2;
              put pixels ((2 * y + 1) * w + (2 * x + 1)) b3
            }) pixels)
          (replicate (n * 4) 0);
        Some (Inr \<lparr>Width = Width img, Height = Height img,
                   PadWidth = PadWidth img, PadHeight = PadHeight img, Image = pixels\<rparr>)
      })"

definition Decrypt ::
  "codec \<Rightarrow> (byte list \<Rightarrow> byte list \<Rightarrow> keystream) \<Rightarrow> CompressedImage \<Rightarrow> byte list
   \<Rightarrow> (error + Image) option" where
  "Decrypt Decode newRNG img key =
     (case Decode (length (Quarterimage img)) (EncQdiffs img) of
        Inl err \<Rightarrow> Some (Inl err)
      | Inr qdiffs \<Rightarrow>
          decrypt newRNG
            \<lparr>Width = Width img, Height = Height img,
             PadWidth = PadHeight img, PadHeight = PadHeight img,
             Salt = Salt img, Quarterimage = Quarterimage img, Qtable = Qtable img,
             Qdiffs = qdiffs\<rparr> key)"

subsection \<open>unpermuteBlocks on a store\<close>

text \<open>
  For the question whether \<open>unpermuteBlocks\<close> writes to its argument, the slices are
  modelled as arrays in a store: an address is an index into the list of allocated
  arrays, \<open>make\<close> appends a new array, and every element access names the array it reads
  or writes. The suffix \<open>s = indices[off:]\<close> shares the array of \<open>indices\<close>.
\<close>

datatype array = Blocks "quad list" | Ints "nat list"

type_synonym store = "array list"

definition alloc :: "store \<Rightarrow> array \<Rightarrow> nat \<times> store" where
  "alloc st a = (length st, st @ [a])"

definition len_blocks :: "store \<Rightarrow> nat \<Rightarrow> nat option" where
  "len_blocks st a =
     (if a < length st then (case st ! a of Blocks bs \<Rightarrow> Some (length bs) | Ints is \<Rightarrow> None)
      else None)"

definition load_block :: "store \<Rightarrow> nat \<Rightarrow> nat \<Rightarrow> quad option" where
  "load_block st a i =
     (if a < length st then (case st ! a of Blocks bs \<Rightarrow> at bs i | Ints is \<Rightarrow> None) else None)"

definition store_block :: "store \<Rightarrow> nat \<Rightarrow> nat \<Rightarrow> quad \<Rightarrow> store option" where
  "store_block st a i v =
     (if a < length st then
        (case st ! a of
           Blocks bs \<Rightarrow> map_option (\<lambda>bs'. st[a := Blocks bs']) (put bs i v)
         | Ints is \<Rightarrow> None)
      else None)"

definition load_int :: "store \<Rightarrow> nat \<Rightarrow> nat \<Rightarrow> nat option" where
  "load_int st a i =
     (if a < length st then (case st ! a of Ints is \<Rightarrow> at is i | Blocks bs \<Rightarrow> None) else None)"

definition store_int :: "store \<Rightarrow> nat \<Rightarrow> nat \<Rightarrow> nat \<Rightarrow> store option" where
  "store_int st a i v =
     (if a < length st then
        (case st ! a of
           Ints is \<Rightarrow> map_option (\<lambda>is'. st[a := Ints is']) (put is i v)
         | Blocks bs \<Rightarrow> None)
      else None)"

function swap_indices_store ::
  "'s rand \<Rightarrow> 's \<Rightarrow> store \<Rightarrow> nat \<Rightarrow> nat \<Rightarrow> nat \<Rightarrow> (store \<times> 's) option" where
  "swap_indices_store intn s st indices len off =
     (if off < len then do {
        (n, s') \<leftarrow> intn s (len - off);
        x \<leftarrow> load_int st indices off;
        y \<leftarrow> load_int st indices (off + n);
        st \<leftarrow> store_int st indices off y;
        st \<leftarrow> store_int st indices (off + n) x;
        swap_indices_store intn s' st indices len (off + 1)
      }
      else Some (st, s))"
  by pat_completeness auto
termination
  by (relation "measure (\<lambda>(intn, s, st, indices, len, off). len - off)") auto

declare swap_indices_store.simps [simp del]

definition unpermuteBlocks_store ::
  "'s rand \<Rightarrow> 's \<Rightarrow> store \<Rightarrow> nat \<Rightarrow> (nat \<times> store \<times> 's) option" where
  "unpermuteBlocks_store intn s st blocks = do {
     n \<leftarrow> len_blocks st blocks;
     let (indices, st) = alloc st (Ints (replicate n 0));
     st \<leftarrow> for_each [0..<n] (\<lambda>i st. store_int st indices i i) st;
     (st, s') \<leftarrow> swap_indices_store intn s st indices n 0;
     let (ret, st) = alloc st (Blocks (replicate n (0, 0, 0, 0)));
     st \<leftarrow> for_each [0..<n] (\<lambda>i st. do {
             v \<leftarrow> load_int st indices i;
             b \<leftarrow> load_block st blocks i;
             store_block st ret v b
           }) st;
     Some (ret, st, s')
   }"

subsection \<open>Auxiliary functions of the proofs\<close>

text \<open>
  The entry that the inner loop of \<open>makeQtable\<close> leaves at index \<open>k\<close>: it starts from
  \<open>k << logq\<close> and moves to \<open>(k << logq) + j\<close> whenever \<open>distortions[j]\<close> is below the
  distortion of the current entry.
\<close>

definition qtable_entry :: "int list \<Rightarrow> byte \<Rightarrow> nat \<Rightarrow> byte" where
  "qtable_entry distortions quantization k =
     fold (\<lambda>j cur. if distortions ! j < distortions ! unat cur
                     then push_bit (TrailingZeros8 quantization) (of_nat k) + of_nat j else cur)
       [1..<unat quantization] (push_bit (TrailingZeros8 quantization) (of_nat k))"

text \<open>
  The next eight keystream bytes as one number: big-endian, with the top bit of the first
  byte masked off.
\<close>

definition be63 :: "keystream \<Rightarrow> nat \<Rightarrow> nat" where
  "be63 ks pos = (unat (ks pos) mod 128) * 2 ^ 56 + unat (ks (pos + 1)) * 2 ^ 48 +
     unat (ks (pos + 2)) * 2 ^ 40 + unat (ks (pos + 3)) * 2 ^ 32 + unat (ks (pos + 4)) * 2 ^ 24 +
     unat (ks (pos + 5)) * 2 ^ 16 + unat (ks (pos + 6)) * 2 ^ 8 + unat (ks (pos + 7))"

text \<open>The differences that \<open>compress\<close> takes of a half-image.\<close>

definition diffs_of :: "byte list \<Rightarrow> byte list" where
  "diffs_of h = map (\<lambda>i. h ! (2 * i + 1) - h ! (2 * i)) [0..<length h div 2]"

text \<open>
  A half-image as its sequence of two-byte blocks, and the blocks that the package's
  test \<open>TestPermute\<close> builds from a half-image (components 2 and 3 are zero).
\<close>

definition pairs_of :: "'a list \<Rightarrow> ('a \<times> 'a) list" where
  "pairs_of p = map (\<lambda>i. (p ! (2 * i), p ! (2 * i + 1))) [0..<length p div 2]"

definition blocks_of :: "byte list \<Rightarrow> quad list" where
  "blocks_of p = map (\<lambda>i. (p ! (2 * i), p ! (2 * i + 1), 0, 0)) [0..<length p div 2]"

text \<open>A generator for the examples: the state is a counter, the draw its remainder.\<close>

definition counter_rand :: "nat rand" where
  "counter_rand s n = Some (s mod n, s + 1)"

text \<open>
  The positions, in a row-major image of width \<open>w\<close>, of the top-left and the bottom-right
  pixel of block number \<open>b\<close> (blocks are numbered row by row, \<open>w div 2\<close> to a row).
\<close>

definition tl_pos :: "nat \<Rightarrow> nat \<Rightarrow> nat" where
  "tl_pos w b = 2 * (b div (w div 2)) * w + 2 * (b mod (w div 2))"

definition br_pos :: "nat \<Rightarrow> nat \<Rightarrow> nat" where
  "br_pos w b = (2 * (b div (w div 2)) + 1) * w + (2 * (b mod (w div 2)) + 1)"

text \<open>Two codecs for the examples: one that copies its input, one that always fails.\<close>

definition copy_codec :: codec where
  "copy_codec n src = Inr src"

definition failing_codec :: codec where
  "failing_codec n src = Inl CodecError"

text \<open>A keystream constructor for the examples: every byte is zero.\<close>

definition zero_rng :: "byte list \<Rightarrow> byte list \<Rightarrow> keystream" where
  "zero_rng key salt = stream_of []"

section \<open>Counted loops\<close>

text \<open>
  A loop returns, and establishes an invariant indexed by the number of completed
  iterations, when every iteration returns and carries the invariant one step on.
\<close>

lemma for_each_append:
  "for_each (xs @ ys) f a = Option.bind (for_each xs f a) (for_each ys f)"
  by (induction xs arbitrary: a) (auto split: option.splits)

lemma for_each_map: "for_each (map g xs) f a = for_each xs (\<lambda>i. f (g i)) a"
  by (induction xs arbitrary: a) (auto split: option.splits)

lemma for_each_rule:
  assumes "I 0 a"
    and "\<And>k a. k < length xs \<Longrightarrow> I k a \<Longrightarrow> \<exists>a'. f (xs ! k) a = Some a' \<and> I (Suc k) a'"
  shows "\<exists>a'. for_each xs f a = Some a' \<and> I (length xs) a'"
  using assms
proof (induction xs arbitrary: I a)
  case Nil
  then show ?case by simp
next
  case (Cons x xs)
  from Cons.prems(2) [of 0 a] Cons.prems(1)
  obtain a1 where a1: "f x a = Some a1" "I (Suc 0) a1" by auto
  have "\<exists>a'. for_each xs f a1 = Some a' \<and> I (Suc (length xs)) a'"
  proof (rule Cons.IH [where I = "\<lambda>k. I (Suc k)"])
    show "I (Suc 0) a1" by (rule a1)
  next
    fix k b assume "k < length xs" "I (Suc k) b"
    then show "\<exists>a'. f (xs ! k) b = Some a' \<and> I (Suc (Suc k)) a'"
      using Cons.prems(2) [of "Suc k" b] by simp
  qed
  then show ?case using a1 by simp
qed

lemma for_each_upt_rule:
  assumes "I 0 a"
    and "\<And>k a. k < n \<Longrightarrow> I k a \<Longrightarrow> \<exists>a'. f k a = Some a' \<and> I (Suc k) a'"
  shows "\<exists>a'. for_each [0..<n] f a = Some a' \<and> I n a'"
  using for_each_rule [of I a "[0..<n]" f] assms by simp

lemma for_each_from_rule:
  assumes "I m a" and "m \<le> n"
    and "\<And>k a. m \<le> k \<Longrightarrow> k < n \<Longrightarrow> I k a \<Longrightarrow> \<exists>a'. f k a = Some a' \<and> I (Suc k) a'"
  shows "\<exists>a'. for_each [m..<n] f a = Some a' \<and> I n a'"
proof -
  have "\<exists>a'. for_each [m..<n] f a = Some a' \<and> I (m + length [m..<n]) a'"
  proof (rule for_each_rule [where I = "\<lambda>k. I (m + k)"])
    show "I (m + 0) a" using assms(1) by simp
  next
    fix k b assume "k < length [m..<n]" "I (m + k) b"
    then show "\<exists>a'. f ([m..<n] ! k) b = Some a' \<and> I (m + Suc k) a'"
      using assms(3) [of "m + k" b] by simp
  qed
  then show ?thesis using assms(2) by simp
qed

lemma evens_below_map: "evens_below n = map (\<lambda>b. 2 * b) [0..<(n + 1) div 2]"
proof (induction n)
  case 0
  then show ?case by (simp add: evens_below_def)
next
  case (Suc n)
  show ?case
  proof (cases "even n")
    case True
    then have "(Suc n + 1) div 2 = Suc ((n + 1) div 2)" "2 * ((n + 1) div 2) = n"
      by (auto elim!: evenE)
    then show ?thesis using Suc True by (simp add: evens_below_def)
  next
    case False
    then have "(Suc n + 1) div 2 = (n + 1) div 2"
      by (auto elim!: oddE)
    then show ?thesis using Suc False by (simp add: evens_below_def)
  qed
qed

lemma for_each_evens_rule:
  assumes "even n" and "I 0 a"
    and "\<And>k a. k < n div 2 \<Longrightarrow> I k a \<Longrightarrow> \<exists>a'. f (2 * k) a = Some a' \<and> I (Suc k) a'"
  shows "\<exists>a'. for_each (evens_below n) f a = Some a' \<and> I (n div 2) a'"
proof -
  have "(n + 1) div 2 = n div 2" using assms(1) by (auto elim!: evenE)
  then show ?thesis
    using for_each_upt_rule [of I a "n div 2" "\<lambda>b. f (2 * b)"] assms(2,3)
    by (simp add: evens_below_map for_each_map)
qed

section \<open>Context adaptive interpolation: the decision tree and its range\<close>

lemma absdiff_abs: "absdiff x y = \<bar>uint x - uint y\<bar>"
  by (auto simp: absdiff_def uint_sub_if' word_less_def word_le_def)

lemma uint_byte_of_int: "0 \<le> k \<Longrightarrow> k < 256 \<Longrightarrow> uint (word_of_int k :: byte) = k"
  by (simp add: uint_word_of_int_eq take_bit_int_eq_self)

lemma uint_byte_lt: "uint (x :: byte) < 256"
  using uint_lt2p [of x] by simp

lemma minmaxmedian_eq:
  "minmaxmedian (a, b, c, d) =
     (min (min a b) (min c d), max (max a b) (max c d), min (max a b) (max c d))"
proof -
  have 1: "(if a < b then (a, b) else (b, a)) = (min a b, max a b)"
    by (auto simp: min_def max_def)
  have 2: "(if c < d then (c, d) else (d, c)) = (min c d, max c d)"
    by (auto simp: min_def max_def)
  have 3: "(if x > y then (y, x) else (x, y)) = (min x y, max x y)" for x y :: byte
    by (auto simp: min_def max_def)
  show ?thesis
    unfolding minmaxmedian_def by (simp add: Let_def 1 2 3 min.commute max.commute)
qed

lemma min4_Min: "min (min a b) (min c d) = Min {a, b, c, d}" for a :: "'a :: linorder"
  by (simp add: min.assoc)

lemma max4_Max: "max (max a b) (max c d) = Max {a, b, c, d}" for a :: "'a :: linorder"
  by (simp add: max.assoc)

lemma sort4_middle:
  fixes a b c d :: "'a :: linorder"
  shows "min (max a b) (max c d) \<in> {sort [a, b, c, d] ! 1, sort [a, b, c, d] ! 2}"
proof -
  consider "a \<le> b" "c \<le> d" | "a \<le> b" "d < c" | "b < a" "c \<le> d" | "b < a" "d < c"
    by fastforce
  then show ?thesis
  proof cases
    case 1 then show ?thesis by (auto simp: min_def max_def)
  next
    case 2 then show ?thesis by (auto simp: min_def max_def)
  next
    case 3 then show ?thesis by (auto simp: min_def max_def)
  next
    case 4 then show ?thesis by (auto simp: min_def max_def)
  qed
qed

lemma uint_min: "uint (min a b) = min (uint a) (uint b)" for a b :: byte
  by (simp add: min_def word_le_def)

lemma uint_max: "uint (max a b) = max (uint a) (uint b)" for a b :: byte
  by (simp add: max_def word_le_def)

lemma cai_uint:
  "uint (cai (N, E, S, W) T) =
     (if uint (max (max N E) (max S W)) - uint (min (min N E) (min S W)) \<le> T
        then (uint N + uint E + uint S + uint W + 2) div 4
      else if \<bar>uint E - uint W\<bar> - \<bar>uint N - uint S\<bar> > T
        then (uint N + uint S + 1) div 2
      else if \<bar>uint N - uint S\<bar> - \<bar>uint E - uint W\<bar> > T
        then (uint E + uint W + 1) div 2
      else uint (min (max N E) (max S W)))"
proof -
  have b: "uint N < 256" "uint E < 256" "uint S < 256" "uint W < 256"
    by (rule uint_byte_lt)+
  have p: "0 \<le> uint N" "0 \<le> uint E" "0 \<le> uint S" "0 \<le> uint W"
    by simp_all
  have 1: "uint (word_of_int ((uint N + uint E + uint S + uint W + 2) div 4) :: byte)
           = (uint N + uint E + uint S + uint W + 2) div 4"
    using b p by (intro uint_byte_of_int) linarith+
  have 2: "uint (word_of_int ((uint N + uint S + 1) div 2) :: byte) = (uint N + uint S + 1) div 2"
    using b p by (intro uint_byte_of_int) linarith+
  have 3: "uint (word_of_int ((uint E + uint W + 1) div 2) :: byte) = (uint E + uint W + 1) div 2"
    using b p by (intro uint_byte_of_int) linarith+
  show ?thesis
    by (simp add: cai_def minmaxmedian_eq absdiff_abs Let_def 1 2 3)
qed

lemma cai_bounds:
  "uint (min (min N E) (min S W)) \<le> uint (cai (N, E, S, W) T) \<and>
   uint (cai (N, E, S, W) T) \<le> uint (max (max N E) (max S W))"
proof -
  define n e s w where "n = uint N" and "e = uint E" and "s = uint S" and "w = uint W"
  define lo hi where "lo = min (min n e) (min s w)" and "hi = max (max n e) (max s w)"
  have lo: "lo \<le> n" "lo \<le> e" "lo \<le> s" "lo \<le> w"
    and hi: "n \<le> hi" "e \<le> hi" "s \<le> hi" "w \<le> hi"
    by (simp_all add: lo_def hi_def)
  have a: "lo \<le> (n + e + s + w + 2) div 4 \<and> (n + e + s + w + 2) div 4 \<le> hi"
    using lo hi by linarith
  have b: "lo \<le> (n + s + 1) div 2 \<and> (n + s + 1) div 2 \<le> hi"
    using lo hi by linarith
  have c: "lo \<le> (e + w + 1) div 2 \<and> (e + w + 1) div 2 \<le> hi"
    using lo hi by linarith
  have d: "lo \<le> min (max n e) (max s w) \<and> min (max n e) (max s w) \<le> hi"
    unfolding lo_def hi_def by linarith
  show ?thesis
    unfolding cai_uint uint_min uint_max
    using a b c d by (simp only: n_def [symmetric] e_def [symmetric] s_def [symmetric]
        w_def [symmetric] lo_def [symmetric] hi_def [symmetric] split: if_split) simp
qed

text \<open>
  C5. For all neighbours \<open>(N, E, S, W)\<close> and every threshold \<open>T\<close>: \<open>minmaxmedian\<close> returns
  the true minimum and maximum of the four bytes and, as median, one of the two middle
  elements of the sorted neighbours; and \<open>cai\<close> returns \<open>(N+E+S+W+2) div 4\<close> if
  \<open>max - min \<le> T\<close>, else \<open>(N+S+1) div 2\<close> if \<open>|E-W| - |N-S| > T\<close>, else \<open>(E+W+1) div 2\<close> if
  \<open>|N-S| - |E-W| > T\<close>, and that median otherwise (all in integer arithmetic).
\<close>

theorem cai_decision_tree:
  "fst (minmaxmedian (N, E, S, W)) = Min {N, E, S, W} \<and>
   fst (snd (minmaxmedian (N, E, S, W))) = Max {N, E, S, W} \<and>
   snd (snd (minmaxmedian (N, E, S, W))) \<in> {sort [N, E, S, W] ! 1, sort [N, E, S, W] ! 2} \<and>
   uint (cai (N, E, S, W) T) =
     (if uint (Max {N, E, S, W}) - uint (Min {N, E, S, W}) \<le> T
        then (uint N + uint E + uint S + uint W + 2) div 4
      else if \<bar>uint E - uint W\<bar> - \<bar>uint N - uint S\<bar> > T
        then (uint N + uint S + 1) div 2
      else if \<bar>uint N - uint S\<bar> - \<bar>uint E - uint W\<bar> > T
        then (uint E + uint W + 1) div 2
      else uint (snd (snd (minmaxmedian (N, E, S, W)))))"
proof -
  have "snd (snd (minmaxmedian (N, E, S, W))) \<in> {sort [N, E, S, W] ! 1, sort [N, E, S, W] ! 2}"
    using sort4_middle [of N E S W] by (simp add: minmaxmedian_eq)
  moreover have "fst (minmaxmedian (N, E, S, W)) = Min {N, E, S, W}"
    by (simp only: minmaxmedian_eq fst_conv min4_Min)
  moreover have "fst (snd (minmaxmedian (N, E, S, W))) = Max {N, E, S, W}"
    by (simp only: minmaxmedian_eq fst_conv snd_conv max4_Max)
  moreover have "uint (cai (N, E, S, W) T) =
     (if uint (Max {N, E, S, W}) - uint (Min {N, E, S, W}) \<le> T
        then (uint N + uint E + uint S + uint W + 2) div 4
      else if \<bar>uint E - uint W\<bar> - \<bar>uint N - uint S\<bar> > T
        then (uint N + uint S + 1) div 2
      else if \<bar>uint N - uint S\<bar> - \<bar>uint E - uint W\<bar> > T
        then (uint E + uint W + 1) div 2
      else uint (snd (snd (minmaxmedian (N, E, S, W)))))"
    by (simp only: cai_uint minmaxmedian_eq snd_conv min4_Min max4_Max)
  ultimately show ?thesis by blast
qed

text \<open>
  C9. For all neighbours and every threshold (in particular every non-negative one), the
  byte returned by \<open>cai\<close> lies between the minimum and the maximum of the four neighbours;
  the rounded sums that are converted to a byte are at most 255, so the conversion does
  not truncate: the value of the result is the integer of the decision tree.
\<close>

theorem cai_between_min_and_max:
  "Min {N, E, S, W} \<le> cai (N, E, S, W) T \<and> cai (N, E, S, W) T \<le> Max {N, E, S, W} \<and>
   (uint N + uint E + uint S + uint W + 2) div 4 \<le> 255 \<and>
   (uint N + uint S + 1) div 2 \<le> 255 \<and> (uint E + uint W + 1) div 2 \<le> 255 \<and>
   uint (cai (N, E, S, W) T) =
     (if uint (Max {N, E, S, W}) - uint (Min {N, E, S, W}) \<le> T
        then (uint N + uint E + uint S + uint W + 2) div 4
      else if \<bar>uint E - uint W\<bar> - \<bar>uint N - uint S\<bar> > T
        then (uint N + uint S + 1) div 2
      else if \<bar>uint N - uint S\<bar> - \<bar>uint E - uint W\<bar> > T
        then (uint E + uint W + 1) div 2
      else uint (min (max N E) (max S W)))"
proof -
  have b: "uint N < 256" "uint E < 256" "uint S < 256" "uint W < 256"
    by (rule uint_byte_lt)+
  have "Min {N, E, S, W} \<le> cai (N, E, S, W) T" "cai (N, E, S, W) T \<le> Max {N, E, S, W}"
    using cai_bounds [of N E S W T] by (simp_all only: word_le_def min4_Min max4_Max)
  moreover have "(uint N + uint E + uint S + uint W + 2) div 4 \<le> 255"
    "(uint N + uint S + 1) div 2 \<le> 255" "(uint E + uint W + 1) div 2 \<le> 255"
    using b by linarith+
  moreover note cai_uint [of N E S W T, unfolded min4_Min max4_Max]
  ultimately show ?thesis by blast
qed

section \<open>Compression\<close>

subsection \<open>The quantization check\<close>

lemma filter_single:
  "length (filter P xs) = 1 \<Longrightarrow> \<exists>k\<in>set xs. P k \<and> (\<forall>i\<in>set xs. i \<noteq> k \<longrightarrow> \<not> P i)"
  by (induction xs) (auto simp: filter_empty_conv split: if_splits)

lemma OnesCount8_one_bit:
  assumes "OnesCount8 x = 1"
  shows "\<exists>k<8. x = 2 ^ k"
proof -
  from filter_single [OF assms [unfolded OnesCount8_def]]
  obtain k where k: "k < 8" "bit x k" "\<forall>i<8. i \<noteq> k \<longrightarrow> \<not> bit x i"
    by auto
  have "x = 2 ^ k"
  proof (rule bit_eqI)
    fix i
    show "bit x i = bit (2 ^ k :: byte) i"
    proof (cases "i < 8")
      case True
      then show ?thesis using k by (auto simp: bit_exp_iff)
    next
      case False
      then have "\<not> bit x i" using bit_imp_le_length [of x i] by auto
      then show ?thesis using False k(1) by (auto simp: bit_exp_iff)
    qed
  qed
  then show ?thesis using k(1) by blast
qed

lemma exp_lt_8_cases:
  assumes "k < 8" and "q = (2 :: 'a :: semiring_1) ^ k"
  shows "q = 1 \<or> q = 2 \<or> q = 4 \<or> q = 8 \<or> q = 16 \<or> q = 32 \<or> q = 64 \<or> q = 128"
proof -
  from assms(1) consider "k = 0" | "k = 1" | "k = 2" | "k = 3" | "k = 4" | "k = 5" | "k = 6" | "k = 7"
    by linarith
  then show ?thesis
  proof cases
    case 1 then show ?thesis using assms(2) by simp
  next
    case 2 then show ?thesis using assms(2) by simp
  next
    case 3 then show ?thesis using assms(2) by simp
  next
    case 4 then show ?thesis using assms(2) by simp
  next
    case 5 then show ?thesis using assms(2) by simp
  next
    case 6 then show ?thesis using assms(2) by simp
  next
    case 7 then show ?thesis using assms(2) by simp
  next
    case 8 then show ?thesis using assms(2) by simp
  qed
qed

lemma OnesCount8_exp: "k < 8 \<Longrightarrow> OnesCount8 (2 ^ k) = 1"
proof -
  assume "k < 8"
  then consider "k = 0" | "k = 1" | "k = 2" | "k = 3" | "k = 4" | "k = 5" | "k = 6" | "k = 7"
    by linarith
  then show ?thesis
    by cases (simp_all add: OnesCount8_def upt_rec bit_exp_iff)
qed

lemma powers_exp:
  assumes "q \<in> {1, 2, 4, 8, 16, 32, 64, 128 :: 'a :: semiring_1}"
  shows "\<exists>k<8. q = 2 ^ k"
proof -
  from assms consider "q = 2 ^ 0" | "q = 2 ^ 1" | "q = 2 ^ 2" | "q = 2 ^ 3" | "q = 2 ^ 4"
    | "q = 2 ^ 5" | "q = 2 ^ 6" | "q = 2 ^ 7" by auto
  then show ?thesis
  proof cases
    case 1 then show ?thesis by (intro exI [of _ 0]) simp
  next
    case 2 then show ?thesis by (intro exI [of _ 1]) simp
  next
    case 3 then show ?thesis by (intro exI [of _ 2]) simp
  next
    case 4 then show ?thesis by (intro exI [of _ 3]) simp
  next
    case 5 then show ?thesis by (intro exI [of _ 4]) simp
  next
    case 6 then show ?thesis by (intro exI [of _ 5]) simp
  next
    case 7 then show ?thesis by (intro exI [of _ 6]) simp
  next
    case 8 then show ?thesis by (intro exI [of _ 7]) simp
  qed
qed

lemma OnesCount8_iff: "(OnesCount8 q = 1) = (q \<in> {1, 2, 4, 8, 16, 32, 64, 128})"
proof
  assume "OnesCount8 q = 1"
  then obtain k where "k < 8" "q = 2 ^ k" using OnesCount8_one_bit by blast
  then show "q \<in> {1, 2, 4, 8, 16, 32, 64, 128}" using exp_lt_8_cases [of k q] by blast
next
  assume "q \<in> {1, 2, 4, 8, 16, 32, 64, 128}"
  then obtain k where "k < 8" "q = 2 ^ k" using powers_exp [of q] by blast
  then show "OnesCount8 q = 1" using OnesCount8_exp by blast
qed

lemma byte_power_of_two: "(\<exists>k. unat (q :: byte) = 2 ^ k) = (q \<in> {1, 2, 4, 8, 16, 32, 64, 128})"
proof
  assume "\<exists>k. unat q = 2 ^ k"
  then obtain k where k: "unat q = 2 ^ k" by blast
  have "unat q < 2 ^ 8" using unsigned_less [of q, where 'a = nat] by simp
  then have "(2 :: nat) ^ k < 2 ^ 8" using k by simp
  then have "k < 8" by (rule power_less_imp_less_exp [rotated]) simp
  moreover have "q = word_of_nat (unat q)" by simp
  then have "q = 2 ^ k" unfolding k by simp
  ultimately show "q \<in> {1, 2, 4, 8, 16, 32, 64, 128}" using exp_lt_8_cases [of k q] by blast
next
  assume "q \<in> {1, 2, 4, 8, 16, 32, 64, 128}"
  then have "unat q \<in> {1, 2, 4, 8, 16, 32, 64, 128}" by auto
  then obtain k where "k < 8" "unat q = 2 ^ k" using powers_exp [of "unat q"] by blast
  then show "\<exists>k. unat q = 2 ^ k" by blast
qed

subsection \<open>What compress computes\<close>

lemma fold_length:
  assumes "\<And>x a. length (f x a) = length a"
  shows "length (fold f xs a) = length a"
  using assms by (induction xs arbitrary: a) auto

lemma accumulate_length: "length (accumulate diffs q) = 256"
  unfolding accumulate_def Let_def
  by (subst fold_length) (simp_all add: fold_length)

lemma compress_diffs:
  assumes "even (length h)"
  shows "for_each (evens_below (length h)) (\<lambda>i diffs. do {
           a \<leftarrow> at h (i + 1);
           b \<leftarrow> at h i;
           put diffs (i div 2) (a - b)
         }) (replicate (length h div 2) 0) = Some (diffs_of h)"
proof -
  let ?n = "length h div 2"
  let ?f = "\<lambda>i diffs. do { a \<leftarrow> at h (i + 1); b \<leftarrow> at h i; put diffs (i div 2) (a - b) }"
  let ?I = "\<lambda>k d. length d = ?n \<and> (\<forall>i<k. d ! i = h ! (2 * i + 1) - h ! (2 * i))"
  have "\<exists>d. for_each (evens_below (length h)) ?f (replicate ?n 0) = Some d \<and> ?I ?n d"
  proof (rule for_each_evens_rule [OF assms, where I = ?I])
    show "?I 0 (replicate ?n 0)" by simp
  next
    fix k d assume k: "k < ?n" and I: "?I k d"
    from k assms have "2 * k + 1 < length h" by (auto elim!: evenE)
    then have "?f (2 * k) d = Some (d[k := h ! (2 * k + 1) - h ! (2 * k)])"
      using k I by (simp add: at_def put_def)
    moreover have "?I (Suc k) (d[k := h ! (2 * k + 1) - h ! (2 * k)])"
      using I k by (auto simp: nth_list_update less_Suc_eq)
    ultimately show "\<exists>d'. ?f (2 * k) d = Some d' \<and> ?I (Suc k) d'" by blast
  qed
  then obtain d where d: "for_each (evens_below (length h)) ?f (replicate ?n 0) = Some d" "?I ?n d"
    by blast
  have "d = diffs_of h"
    using d(2) by (intro nth_equalityI) (simp_all add: diffs_of_def)
  then show ?thesis using d(1) by simp
qed

lemma makeQtable_eq:
  assumes "length distortions = 256"
  shows "makeQtable distortions q =
    Some (map (qtable_entry distortions q) [0..<drop_bit (TrailingZeros8 q) 256])"
proof -
  define logq where "logq = TrailingZeros8 q"
  define n where "n = drop_bit logq (256 :: nat)"
  define base :: "nat \<Rightarrow> byte" where "base = (\<lambda>k. push_bit logq (of_nat k))"
  define step where "step = (\<lambda>k j (cur :: byte).
    if distortions ! j < distortions ! unat cur then base k + of_nat j else cur)"
  define E where "E = qtable_entry distortions q"
  have E: "E k = fold (step k) [1..<unat q] (base k)" for k
    unfolding E_def qtable_entry_def step_def base_def logq_def by (rule refl)
  let ?inner = "\<lambda>k j qtable. do {
          dj \<leftarrow> at distortions j;
          cur \<leftarrow> at qtable k;
          dcur \<leftarrow> at distortions (unat cur);
          (if dj < dcur then put qtable k (push_bit logq (of_nat k) + of_nat j)
           else Some qtable) }"
  let ?body = "\<lambda>k qtable. do {
        qtable \<leftarrow> put qtable k (push_bit logq (of_nat k));
        for_each [1..<unat q] (?inner k) qtable }"
  let ?I = "\<lambda>k (qt :: byte list). length qt = n \<and> (\<forall>i<k. qt ! i = E i)"
  have q256: "unat q < 256" using unsigned_less [of q, where 'a = nat] by simp
  have u256: "unat c < 256" for c :: byte using unsigned_less [of c, where 'a = nat] by simp
  have "\<exists>qt. for_each [0..<n] ?body (replicate n 0) = Some qt \<and> ?I n qt"
  proof (rule for_each_upt_rule [where I = ?I])
    show "?I 0 (replicate n 0)" by simp
  next
    fix k qt assume k: "k < n" and I: "?I k qt"
    let ?J = "\<lambda>j (qt' :: byte list). length qt' = n \<and> (\<forall>i<k. qt' ! i = E i) \<and>
                 qt' ! k = fold (step k) [1..<j] (base k)"
    have "\<exists>qt'. for_each [1..<max 1 (unat q)] (?inner k) (qt[k := base k]) = Some qt' \<and>
            ?J (max 1 (unat q)) qt'"
    proof (rule for_each_from_rule [where I = ?J])
      show "?J 1 (qt[k := base k])" using I k by simp
    next
      show "1 \<le> max 1 (unat q)" by simp
    next
      fix j qt' assume j: "1 \<le> j" "j < max 1 (unat q)" and J: "?J j qt'"
      have jq: "j < 256" using j q256 by simp
      have upd: "[1..<Suc j] = [1..<j] @ [j]" using j by simp
      have len: "length qt' = n" using J by simp
      have "?inner k j qt' = Some (qt'[k := step k j (qt' ! k)])"
        using jq len k assms u256 [of "qt' ! k"]
        by (simp add: at_def put_def step_def base_def)
      moreover have "?J (Suc j) (qt'[k := step k j (qt' ! k)])"
        using J k j by simp
      ultimately show "\<exists>a'. ?inner k j qt' = Some a' \<and> ?J (Suc j) a'" by blast
    qed
    moreover have "[1..<max 1 (unat q)] = [1..<unat q]" by (cases "unat q") simp_all
    moreover have "fold (step k) [1..<max 1 (unat q)] (base k) = E k"
      unfolding E by (cases "unat q") simp_all
    ultimately obtain qt' where qt': "for_each [1..<unat q] (?inner k) (qt[k := base k]) = Some qt'"
      "length qt' = n" "\<forall>i<k. qt' ! i = E i" "qt' ! k = E k" by auto
    have "?body k qt = Some qt'"
      using qt'(1) I k by (simp add: put_def base_def)
    moreover have "?I (Suc k) qt'" using qt'(2-4) by (auto simp: less_Suc_eq)
    ultimately show "\<exists>a'. ?body k qt = Some a' \<and> ?I (Suc k) a'" by blast
  qed
  then obtain qt where qt: "for_each [0..<n] ?body (replicate n 0) = Some qt" "?I n qt" by blast
  have "qt = map E [0..<n]" using qt(2) by (intro nth_equalityI) simp_all
  then show ?thesis
    using qt(1) unfolding makeQtable_def Let_def logq_def [symmetric] n_def [symmetric] E_def
    by simp
qed

lemma compress_eq:
  assumes "even (length (Halfimage img))"
  shows "compress img q =
    (if OnesCount8 q \<noteq> 1 then Some (Inl InvalidQuantization)
     else Some (Inr \<lparr>Width = Width img, Height = Height img,
                     PadWidth = PadHeight img, PadHeight = PadHeight img,
                     Salt = Salt img,
                     Quarterimage = map (\<lambda>i. Halfimage img ! (2 * i)) [0..<length (Halfimage img) div 2],
                     Qtable = map (qtable_entry (accumulate (diffs_of (Halfimage img)) q) q)
                                [0..<drop_bit (TrailingZeros8 q) 256],
                     Qdiffs = map (drop_bit (TrailingZeros8 q)) (diffs_of (Halfimage img))\<rparr>))"
  unfolding compress_def compress_diffs [OF assms]
  by (simp add: Let_def makeQtable_eq [OF accumulate_length] diffs_of_def)

subsection \<open>The quantization check, the table and the padding on concrete inputs\<close>

lemma TrailingZeros8_exp: "k < 8 \<Longrightarrow> TrailingZeros8 (2 ^ k) = k"
proof -
  assume "k < 8"
  then consider "k = 0" | "k = 1" | "k = 2" | "k = 3" | "k = 4" | "k = 5" | "k = 6" | "k = 7"
    by linarith
  then show ?thesis
    by cases (simp_all add: TrailingZeros8_def upt_rec bit_exp_iff)
qed

lemma TrailingZeros8_1: "TrailingZeros8 1 = 0"
  using TrailingZeros8_exp [of 0] by simp

lemma TrailingZeros8_2: "TrailingZeros8 2 = 1"
  using TrailingZeros8_exp [of 1] by simp

lemma int64_small: "- (2 ^ 63) \<le> k \<Longrightarrow> k < 2 ^ 63 \<Longrightarrow> int64 k = k"
  unfolding int64_def by (simp add: signed_take_bit_int_eq_self)

text \<open>
  C8 (amended). For every EncryptedImage whose Halfimage has even length and every
  quantization \<open>q\<close>: \<open>compress\<close> returns an error exactly when \<open>q\<close> is zero or not a power
  of two; the error is \<open>InvalidQuantization\<close>, no image is returned, and \<open>Compress\<close> returns
  the same error. Every \<open>q\<close> in \<open>{1, 2, 4, 8, 16, 32, 64, 128}\<close> passes the check, and then
  \<open>Compress\<close> returns an error exactly when the entropy coder does. No byte above 128 is
  a power of two.
\<close>

theorem compress_quantization_check:
  assumes "even (length (Halfimage img))"
  shows "((\<exists>e. compress img q = Some (Inl e)) = (q = 0 \<or> (\<nexists>k. unat q = 2 ^ k))) \<and>
         ((q = 0 \<or> (\<nexists>k. unat q = 2 ^ k)) \<longrightarrow>
            compress img q = Some (Inl InvalidQuantization) \<and>
            Compress Encode img q = Some (Inl InvalidQuantization)) \<and>
         (q \<in> {1, 2, 4, 8, 16, 32, 64, 128} \<longrightarrow>
            (\<exists>cimg. compress img q = Some (Inr cimg) \<and>
               ((\<exists>e. Compress Encode img q = Some (Inl e)) =
                (\<exists>e. Encode (length (Qdiffs cimg)) (Qdiffs cimg) = Inl e)))) \<and>
         (128 < q \<longrightarrow> (\<nexists>k. unat q = 2 ^ k))"
proof -
  have zero: "q = 0 \<Longrightarrow> \<nexists>k. unat q = 2 ^ k" by simp
  have bad: "compress img q = Some (Inl InvalidQuantization)"
    "Compress Encode img q = Some (Inl InvalidQuantization)" if "\<nexists>k. unat q = 2 ^ k"
  proof -
    from that have "OnesCount8 q \<noteq> 1"
      using OnesCount8_iff [of q] byte_power_of_two [of q] by blast
    then show "compress img q = Some (Inl InvalidQuantization)"
      by (simp add: compress_eq [OF assms])
    then show "Compress Encode img q = Some (Inl InvalidQuantization)"
      by (simp add: Compress_def)
  qed
  have good: "\<exists>cimg. compress img q = Some (Inr cimg) \<and>
               ((\<exists>e. Compress Encode img q = Some (Inl e)) =
                (\<exists>e. Encode (length (Qdiffs cimg)) (Qdiffs cimg) = Inl e))"
    if "\<exists>k. unat q = 2 ^ k"
  proof -
    from that have "OnesCount8 q = 1"
      using OnesCount8_iff [of q] byte_power_of_two [of q] by blast
    then obtain cimg where c: "compress img q = Some (Inr cimg)"
      by (simp add: compress_eq [OF assms])
    have "(\<exists>e. Compress Encode img q = Some (Inl e)) =
                (\<exists>e. Encode (length (Qdiffs cimg)) (Qdiffs cimg) = Inl e)"
      by (simp add: Compress_def c split: sum.splits)
    with c show ?thesis by blast
  qed
  have big: "\<nexists>k. unat q = 2 ^ k" if "128 < q"
  proof -
    from that have "q \<notin> {1, 2, 4, 8, 16, 32, 64, 128}" by auto
    then show ?thesis by (simp only: byte_power_of_two not_False_eq_True)
  qed
  have iff: "(\<exists>e. compress img q = Some (Inl e)) = (q = 0 \<or> (\<nexists>k. unat q = 2 ^ k))"
    using zero bad(1) good by (cases "\<exists>k. unat q = 2 ^ k") auto
  show ?thesis
    using iff zero bad good big by (simp only: byte_power_of_two) blast
qed

text \<open>
  The check at a half-image of two blocks: quantization 3 is refused, quantization 2 is
  accepted, and with a coder that does not fail \<open>Compress\<close> returns no error.
\<close>

theorem compress_quantization_check_witness:
  "compress \<lparr>Width = 2, Height = 4, PadWidth = False, PadHeight = False, Salt = [],
              Halfimage = [0, 3, 0, 2]\<rparr> 3 = Some (Inl InvalidQuantization) \<and>
   (\<exists>cimg. compress \<lparr>Width = 2, Height = 4, PadWidth = False, PadHeight = False, Salt = [],
              Halfimage = [0, 3, 0, 2]\<rparr> 2 = Some (Inr cimg) \<and>
      (\<nexists>e. Compress copy_codec \<lparr>Width = 2, Height = 4, PadWidth = False, PadHeight = False,
              Salt = [], Halfimage = [0, 3, 0, 2]\<rparr> 2 = Some (Inl e)))"
proof -
  let ?img = "\<lparr>Width = 2, Height = 4, PadWidth = False, PadHeight = False, Salt = [],
              Halfimage = [0, 3, 0, 2 :: byte]\<rparr>"
  have e: "even (length (Halfimage ?img))" by simp
  have three: "\<nexists>k. unat (3 :: byte) = 2 ^ k" by (simp only: byte_power_of_two) simp
  have two: "(2 :: byte) \<in> {1, 2, 4, 8, 16, 32, 64, 128}" by simp
  show ?thesis
    using compress_quantization_check [OF e, of 3 copy_codec]
      compress_quantization_check [OF e, of 2 copy_codec] three two
    by (auto simp: copy_codec_def)
qed

text \<open>
  C8 as stated fails in two ways: with a valid quantization \<open>Compress\<close> still returns the
  error of a failing entropy coder; and on a half-image of odd length \<open>compress\<close> panics
  in the differencing loop, which runs before the check, so no error is returned for
  quantization 3.
\<close>

theorem compress_quantization_counterexample:
  "Compress failing_codec \<lparr>Width = 0, Height = 0, PadWidth = False, PadHeight = False, Salt = [],
      Halfimage = []\<rparr> 1 = Some (Inl CodecError) \<and>
   compress \<lparr>Width = 0, Height = 0, PadWidth = False, PadHeight = False, Salt = [],
      Halfimage = [7]\<rparr> 3 = None"
proof -
  have 1: "OnesCount8 1 = 1" using OnesCount8_exp [of 0] by simp
  have "Compress failing_codec \<lparr>Width = 0, Height = 0, PadWidth = False, PadHeight = False,
      Salt = [], Halfimage = []\<rparr> 1 = Some (Inl CodecError)"
    by (simp add: Compress_def compress_eq 1 failing_codec_def)
  moreover have "compress \<lparr>Width = 0, Height = 0, PadWidth = False, PadHeight = False, Salt = [],
      Halfimage = [7]\<rparr> 3 = None"
    by (simp add: compress_def evens_below_def at_def)
  ultimately show ?thesis by (rule conjI)
qed

text \<open>
  C6. \<open>NewImage\<close> on odd dimensions: a 3x1 image comes back as a 4x2 image with an empty
  pixel array (not 8 bytes holding the row and zeros); a 3x2 image panics in the copy of
  the second row; a 2x1 image comes back as a 2x2 image with an empty pixel array.
\<close>

theorem NewImage_padding_lost:
  "NewImage [1, 2, 3] 3 1 =
     Some (Inr \<lparr>Width = 4, Height = 2, PadWidth = True, PadHeight = True, Image = []\<rparr>) \<and>
   NewImage [1, 2, 3, 4, 5, 6] 3 2 = None \<and>
   NewImage [1, 2] 2 1 =
     Some (Inr \<lparr>Width = 2, Height = 2, PadWidth = False, PadHeight = True, Image = []\<rparr>)"
proof -
  have "NewImage [1, 2, 3] 3 1 =
     Some (Inr \<lparr>Width = 4, Height = 2, PadWidth = True, PadHeight = True, Image = []\<rparr>)"
    by (simp add: NewImage_def int64_small go_rem_def slice_def copy_from_def maxAlloc_def)
  moreover have "NewImage [1, 2, 3, 4, 5, 6] 3 2 = None"
    by (simp add: NewImage_def int64_small go_rem_def slice_def copy_from_def maxAlloc_def upt_rec)
  moreover have "NewImage [1, 2] 2 1 =
     Some (Inr \<lparr>Width = 2, Height = 2, PadWidth = False, PadHeight = True, Image = []\<rparr>)"
    by (simp add: NewImage_def int64_small go_rem_def slice_def copy_from_def maxAlloc_def)
  ultimately show ?thesis by blast
qed

lemma accumulate_3_2:
  "accumulate [3, 2] 2 ! 1 = 0" "accumulate [3, 2] 2 ! 2 = 1" "accumulate [3, 2] 2 ! 3 = 1"
  by (simp_all add: accumulate_def TrailingZeros8_2 Let_def upt_rec)

text \<open>
  C3. Half-image \<open>[0, 3, 0, 2]\<close> at quantization 2: the differences are 3 and 2, both in
  bucket 1, whose two distortions (indices 2 and 3) are both 1, so the smallest minimizing
  offset is 0 and the entry of bucket 1 should be 2. \<open>makeQtable\<close> compares
  \<open>distortions[1]\<close>, an entry of bucket 0, and returns 3.
\<close>

theorem makeQtable_reads_bucket_zero:
  "diffs_of [0, 3, 0, 2] = [3, 2] \<and>
   accumulate [3, 2] 2 ! 1 = 0 \<and> accumulate [3, 2] 2 ! 2 = 1 \<and> accumulate [3, 2] 2 ! 3 = 1 \<and>
   map_option (\<lambda>qtable. qtable ! 1) (makeQtable (accumulate [3, 2] 2) 2) = Some 3 \<and>
   map_option (map_sum id (\<lambda>cimg. Qtable cimg ! 1))
     (compress \<lparr>Width = 2, Height = 4, PadWidth = False, PadHeight = False, Salt = [],
                Halfimage = [0, 3, 0, 2]\<rparr> 2) = Some (Inr 3)"
proof -
  have d: "diffs_of [0, 3, 0, 2 :: byte] = [3, 2]"
    by (simp add: diffs_of_def upt_rec)
  have e: "qtable_entry (accumulate [3, 2] 2) 2 1 = 3"
    using accumulate_3_2 by (simp add: qtable_entry_def TrailingZeros8_2 upt_rec)
  have n: "drop_bit (TrailingZeros8 2) (256 :: nat) = 128"
    by (simp add: TrailingZeros8_2 drop_bit_eq_div)
  have t: "map_option (\<lambda>qtable. qtable ! 1) (makeQtable (accumulate [3, 2] 2) 2) = Some 3"
    using e by (simp add: makeQtable_eq [OF accumulate_length] n)
  have o: "OnesCount8 2 = 1" using OnesCount8_exp [of 1] by simp
  have c: "map_option (map_sum id (\<lambda>cimg. Qtable cimg ! 1))
     (compress \<lparr>Width = 2, Height = 4, PadWidth = False, PadHeight = False, Salt = [],
                Halfimage = [0, 3, 0, 2]\<rparr> 2) = Some (Inr 3)"
    using e by (simp add: compress_eq o d n)
  show ?thesis using d t c accumulate_3_2 by blast
qed

lemma Intn_one: "Intn ks pos 1 = Some (0, pos + 8)"
  by (simp add: Intn_def Int31n_def Int31_def Int63_def Read_def split: prod.splits)

lemma permuteHalfimage_Nil: "permuteHalfimage intn s [] = Some ([], s)"
  by (simp add: permuteHalfimage.simps)

lemma permuteHalfimage_pair:
  "intn s 1 = Some (0, s') \<Longrightarrow> permuteHalfimage intn s [a, b] = Some ([a, b], s')"
  by (simp add: permuteHalfimage.simps [of _ _ "[a, b]"] permuteHalfimage_Nil)

lemma swap_indices_Nil: "swap_indices intn s [] = Some ([], s)"
  by (simp add: swap_indices.simps)

lemma swap_indices_single:
  "intn s 1 = Some (0, s') \<Longrightarrow> swap_indices intn s [a] = Some ([a], s')"
  by (simp add: swap_indices.simps [of _ _ "[a]"] swap_indices_Nil)

lemma permuteHalfimage_Intn_pair:
  "permuteHalfimage (Intn ks) pos [a, b] = Some ([a, b], pos + 8)"
  using permuteHalfimage_pair [of "Intn ks" pos "pos + 8" a b] Intn_one [of ks pos] by simp

lemma swap_indices_Intn_single: "swap_indices (Intn ks) pos [a] = Some ([a], pos + 8)"
  using swap_indices_single [of "Intn ks" pos "pos + 8" a] Intn_one [of ks pos] by simp

text \<open>
  C7. An image (and its encrypted and compressed forms) with \<open>PadWidth = true\<close> and
  \<open>PadHeight = false\<close>: \<open>Encrypt\<close>, \<open>compress\<close> and \<open>Decrypt\<close> each return \<open>PadWidth = false\<close>,
  because each assigns \<open>PadWidth\<close> from the \<open>PadHeight\<close> of its input. Width and Height are
  copied.
\<close>

theorem PadWidth_taken_from_PadHeight:
  "Encrypt zero_rng (Inr [])
     \<lparr>Width = 2, Height = 2, PadWidth = True, PadHeight = False, Image = [10, 0, 0, 20]\<rparr> [] =
   Some (Inr \<lparr>Width = 2, Height = 2, PadWidth = False, PadHeight = False, Salt = [],
              Halfimage = [10, 20]\<rparr>) \<and>
   map_option (map_sum id PadWidth)
     (compress \<lparr>Width = 2, Height = 2, PadWidth = True, PadHeight = False, Salt = [],
                Halfimage = [10, 20]\<rparr> 1) = Some (Inr False) \<and>
   Decrypt copy_codec zero_rng
     \<lparr>Width = 2, Height = 2, PadWidth = True, PadHeight = False, Salt = [],
      Quarterimage = [10], Qtable = [10], EncQdiffs = [0]\<rparr> [] =
   Some (Inr \<lparr>Width = 2, Height = 2, PadWidth = False, PadHeight = False,
              Image = [10, 15, 15, 20]\<rparr>)"
proof -
  have r: "Read (stream_of []) 0 (Suc 0) = ([0], Suc 0)"
    by (simp add: Read_def stream_of_def)
  have ev: "evens_below 2 = [0]"
    by (simp add: evens_below_def upt_rec)
  have 1: "Encrypt zero_rng (Inr [])
     \<lparr>Width = 2, Height = 2, PadWidth = True, PadHeight = False, Image = [10, 0, 0, 20]\<rparr> [] =
   Some (Inr \<lparr>Width = 2, Height = 2, PadWidth = False, PadHeight = False, Salt = [],
              Halfimage = [10, 20]\<rparr>)"
    by (simp add: Encrypt_def zero_rng_def r ev Let_def at_def put_def permuteHalfimage_Intn_pair)
  have o: "OnesCount8 1 = 1" using OnesCount8_exp [of 0] by simp
  have 2: "map_option (map_sum id PadWidth)
     (compress \<lparr>Width = 2, Height = 2, PadWidth = True, PadHeight = False, Salt = [],
                Halfimage = [10, 20]\<rparr> 1) = Some (Inr False)"
    by (simp add: compress_eq o)
  have c: "cai (20, 10, 20, 10) 20 = 15" "cai (10, 20, 10, 20) 20 = 15"
    by (simp_all add: cai_def minmaxmedian_def Let_def)
  have 3: "Decrypt copy_codec zero_rng
     \<lparr>Width = 2, Height = 2, PadWidth = True, PadHeight = False, Salt = [],
      Quarterimage = [10], Qtable = [10], EncQdiffs = [0]\<rparr> [] =
   Some (Inr \<lparr>Width = 2, Height = 2, PadWidth = False, PadHeight = False,
              Image = [10, 15, 15, 20]\<rparr>)"
    by (simp add: Decrypt_def copy_codec_def decrypt_def zero_rng_def r Let_def
        unpermuteBlocks_def interpolateBlocks_def at_def put_def swap_indices_Intn_single
        q0_def q3_def c eval_nat_numeral)
  show ?thesis using 1 2 3 by blast
qed

section \<open>The random source\<close>

lemma push_bit_or_add:
  fixes a b :: nat
  assumes "b < 2 ^ k"
  shows "push_bit k a OR b = a * 2 ^ k + b"
proof -
  have "push_bit k a + b = push_bit k a OR b"
  proof (rule disjunctive_add)
    fix n
    show "\<not> bit (push_bit k a) n \<or> \<not> bit b n"
    proof (cases "n < k")
      case True
      then show ?thesis by (simp add: bit_push_bit_iff)
    next
      case False
      then have "(2 :: nat) ^ k \<le> 2 ^ n" by simp
      then have "b < 2 ^ n" using assms by linarith
      then show ?thesis by (simp add: bit_iff_odd)
    qed
  qed
  then show ?thesis by (simp add: push_bit_eq_mult)
qed

lemma unat_byte_lt: "unat (x :: byte) < 256"
  using unsigned_less [of x, where 'a = nat] by simp

lemma unat_and_7f: "unat (x AND 0x7f :: byte) = unat x mod 128"
proof -
  have "(0x7f :: byte) = mask 7" by (simp add: mask_eq_exp_minus_1)
  then have "x AND 0x7f = take_bit 7 x" by (simp add: take_bit_eq_mask)
  then show ?thesis by (simp add: unsigned_take_bit_eq take_bit_eq_mod unat_mod_distrib)
qed

lemma Read_8:
  "Read ks pos 8 = ([ks pos, ks (pos + 1), ks (pos + 2), ks (pos + 3), ks (pos + 4), ks (pos + 5),
     ks (pos + 6), ks (pos + 7)], pos + 8)"
proof -
  have "[pos..<pos + 8] = [pos, pos + 1, pos + 2, pos + 3, pos + 4, pos + 5, pos + 6, pos + 7]"
    by (simp add: upt_conv_Cons numeral_eq_Suc)
  then show ?thesis by (simp add: Read_def)
qed

lemma Int63_eq: "Int63 ks pos = (be63 ks pos, pos + 8)"
proof -
  define b0 b1 b2 b3 b4 b5 b6 b7 where b: "b0 = unat (ks pos) mod 128" "b1 = unat (ks (pos + 1))"
    "b2 = unat (ks (pos + 2))" "b3 = unat (ks (pos + 3))" "b4 = unat (ks (pos + 4))"
    "b5 = unat (ks (pos + 5))" "b6 = unat (ks (pos + 6))" "b7 = unat (ks (pos + 7))"
  have lt: "b1 < 256" "b2 < 256" "b3 < 256" "b4 < 256" "b5 < 256" "b6 < 256" "b7 < 256"
    unfolding b by (rule unat_byte_lt)+
  have l7: "b7 < 2 ^ 8" using lt by simp
  have e6: "push_bit 8 b6 OR b7 = b6 * 2 ^ 8 + b7" by (rule push_bit_or_add [OF l7])
  have l6: "b6 * 2 ^ 8 + b7 < 2 ^ 16" using lt by simp
  have e5: "push_bit 16 b5 OR (b6 * 2 ^ 8 + b7) = b5 * 2 ^ 16 + (b6 * 2 ^ 8 + b7)"
    by (rule push_bit_or_add [OF l6])
  have l5: "b5 * 2 ^ 16 + (b6 * 2 ^ 8 + b7) < 2 ^ 24" using lt by simp
  have e4: "push_bit 24 b4 OR (b5 * 2 ^ 16 + (b6 * 2 ^ 8 + b7)) =
           b4 * 2 ^ 24 + (b5 * 2 ^ 16 + (b6 * 2 ^ 8 + b7))"
    by (rule push_bit_or_add [OF l5])
  have l4: "b4 * 2 ^ 24 + (b5 * 2 ^ 16 + (b6 * 2 ^ 8 + b7)) < 2 ^ 32" using lt by simp
  have e3: "push_bit 32 b3 OR (b4 * 2 ^ 24 + (b5 * 2 ^ 16 + (b6 * 2 ^ 8 + b7))) =
           b3 * 2 ^ 32 + (b4 * 2 ^ 24 + (b5 * 2 ^ 16 + (b6 * 2 ^ 8 + b7)))"
    by (rule push_bit_or_add [OF l4])
  have l3: "b3 * 2 ^ 32 + (b4 * 2 ^ 24 + (b5 * 2 ^ 16 + (b6 * 2 ^ 8 + b7))) < 2 ^ 40"
    using lt by simp
  have e2: "push_bit 40 b2 OR (b3 * 2 ^ 32 + (b4 * 2 ^ 24 + (b5 * 2 ^ 16 + (b6 * 2 ^ 8 + b7)))) =
           b2 * 2 ^ 40 + (b3 * 2 ^ 32 + (b4 * 2 ^ 24 + (b5 * 2 ^ 16 + (b6 * 2 ^ 8 + b7))))"
    by (rule push_bit_or_add [OF l3])
  have l2: "b2 * 2 ^ 40 + (b3 * 2 ^ 32 + (b4 * 2 ^ 24 + (b5 * 2 ^ 16 + (b6 * 2 ^ 8 + b7)))) < 2 ^ 48"
    using lt by simp
  have e1: "push_bit 48 b1 OR
             (b2 * 2 ^ 40 + (b3 * 2 ^ 32 + (b4 * 2 ^ 24 + (b5 * 2 ^ 16 + (b6 * 2 ^ 8 + b7))))) =
           b1 * 2 ^ 48 +
             (b2 * 2 ^ 40 + (b3 * 2 ^ 32 + (b4 * 2 ^ 24 + (b5 * 2 ^ 16 + (b6 * 2 ^ 8 + b7)))))"
    by (rule push_bit_or_add [OF l2])
  have l1: "b1 * 2 ^ 48 +
             (b2 * 2 ^ 40 + (b3 * 2 ^ 32 + (b4 * 2 ^ 24 + (b5 * 2 ^ 16 + (b6 * 2 ^ 8 + b7)))))
           < 2 ^ 56"
    using lt by simp
  have e0: "push_bit 56 b0 OR (b1 * 2 ^ 48 +
             (b2 * 2 ^ 40 + (b3 * 2 ^ 32 + (b4 * 2 ^ 24 + (b5 * 2 ^ 16 + (b6 * 2 ^ 8 + b7)))))) =
           b0 * 2 ^ 56 + (b1 * 2 ^ 48 +
             (b2 * 2 ^ 40 + (b3 * 2 ^ 32 + (b4 * 2 ^ 24 + (b5 * 2 ^ 16 + (b6 * 2 ^ 8 + b7))))))"
    by (rule push_bit_or_add [OF l1])
  have "push_bit 56 b0 OR push_bit 48 b1 OR push_bit 40 b2 OR push_bit 32 b3 OR
        push_bit 24 b4 OR push_bit 16 b5 OR push_bit 8 b6 OR b7 =
        b0 * 2 ^ 56 + b1 * 2 ^ 48 + b2 * 2 ^ 40 + b3 * 2 ^ 32 + b4 * 2 ^ 24 + b5 * 2 ^ 16 +
        b6 * 2 ^ 8 + b7"
    by (simp only: e6 e5 e4 e3 e2 e1 e0 add.assoc)
  then show ?thesis
    unfolding Int63_def Read_8 be63_def b [symmetric]
    by (simp add: unat_and_7f b)
qed
lemma be63_lt: "be63 ks pos < 2 ^ 63"
proof -
  have "unat (ks pos) mod 128 < 128" by simp
  moreover note unat_byte_lt [of "ks (pos + 1)"] unat_byte_lt [of "ks (pos + 2)"]
    unat_byte_lt [of "ks (pos + 3)"] unat_byte_lt [of "ks (pos + 4)"]
    unat_byte_lt [of "ks (pos + 5)"] unat_byte_lt [of "ks (pos + 6)"]
    unat_byte_lt [of "ks (pos + 7)"]
  ultimately show ?thesis unfolding be63_def by simp
qed

lemma be63_top:
  "be63 ks pos div 2 ^ 32 = (unat (ks pos) mod 128) * 2 ^ 24 + unat (ks (pos + 1)) * 2 ^ 16 +
     unat (ks (pos + 2)) * 2 ^ 8 + unat (ks (pos + 3))"
proof -
  define hi where "hi = (unat (ks pos) mod 128) * 2 ^ 24 + unat (ks (pos + 1)) * 2 ^ 16 +
     unat (ks (pos + 2)) * 2 ^ 8 + unat (ks (pos + 3))"
  define lo where "lo = unat (ks (pos + 4)) * 2 ^ 24 +
     unat (ks (pos + 5)) * 2 ^ 16 + unat (ks (pos + 6)) * 2 ^ 8 + unat (ks (pos + 7))"
  have "lo < 2 ^ 32"
    using unat_byte_lt [of "ks (pos + 4)"] unat_byte_lt [of "ks (pos + 5)"]
      unat_byte_lt [of "ks (pos + 6)"] unat_byte_lt [of "ks (pos + 7)"]
    unfolding lo_def by simp
  moreover have "be63 ks pos = hi * 2 ^ 32 + lo"
    unfolding be63_def hi_def lo_def by simp
  ultimately have "be63 ks pos div 2 ^ 32 = hi" by simp
  then show ?thesis unfolding hi_def .
qed

lemma Int31_eq: "Int31 ks pos = (be63 ks pos div 2 ^ 32, pos + 8)"
  by (simp add: Int31_def Int63_eq drop_bit_eq_div)

lemma Int31_lt: "be63 ks pos div 2 ^ 32 < 2 ^ 31"
  using be63_lt [of ks pos] by (simp add: less_mult_imp_div_less)

lemma and_pred_zero_power:
  fixes n :: nat
  assumes "0 < n" and "n AND (n - 1) = 0"
  shows "\<exists>k. n = 2 ^ k"
proof -
  from assms(1) obtain k where k: "2 ^ k \<le> n" "n < 2 ^ (k + 1)"
    using ex_power_ivl1 [of 2 n] by auto
  have "n = 2 ^ k"
  proof (rule ccontr)
    assume "n \<noteq> 2 ^ k"
    with k have m: "2 ^ k \<le> n - 1" "n - 1 < 2 ^ (k + 1)" by auto
    have "n div 2 ^ k = 1" using k by (intro div_nat_eqI) simp_all
    moreover have "(n - 1) div 2 ^ k = 1" using m by (intro div_nat_eqI) simp_all
    ultimately have "bit n k" "bit (n - 1) k" by (simp_all add: bit_iff_odd)
    then have "bit (n AND (n - 1)) k" by (simp add: bit_and_iff)
    then show False using assms(2) by simp
  qed
  then show ?thesis by blast
qed

lemma and_pred_mod:
  fixes n v w :: nat
  assumes "0 < n" and "n AND (n - 1) = 0" and "n < 2 ^ w"
  shows "v AND (n - 1) = v mod n" and "2 ^ w mod n = 0"
proof -
  from and_pred_zero_power [OF assms(1,2)] obtain k where k: "n = 2 ^ k" by blast
  have "n - 1 = mask k" by (simp add: k mask_eq_exp_minus_1)
  then show "v AND (n - 1) = v mod n"
    by (simp add: take_bit_eq_mask [symmetric] take_bit_eq_mod k)
  from assms(3) k have "k < w" by simp
  then have "(2 :: nat) ^ k dvd 2 ^ w" by (simp add: le_imp_power_dvd)
  then show "2 ^ w mod n = 0" by (simp add: k)
qed

lemma Int31n_eq:
  assumes "0 < n" and "n < 2 ^ 31"
  shows "Int31n ks pos n =
    (if be63 ks pos div 2 ^ 32 \<le> 2 ^ 31 - 1 - 2 ^ 31 mod n
     then Some (be63 ks pos div 2 ^ 32 mod n, pos + 8)
     else Int31n ks (pos + 8) n)"
proof (cases "n AND (n - 1) = 0")
  case True
  have "2 ^ 31 mod n = 0" by (rule and_pred_mod(2) [OF assms(1) True assms(2)])
  moreover have "be63 ks pos div 2 ^ 32 AND (n - 1) = be63 ks pos div 2 ^ 32 mod n"
    by (rule and_pred_mod(1) [OF assms(1) True assms(2)])
  ultimately show ?thesis
    using True Int31_lt [of ks pos] by (simp add: Int31n_def Int31_eq)
next
  case False
  then show ?thesis
    by (subst (1 2) Int31n_def) (simp add: Int31_upto.simps [of ks _ pos] Int31_eq)
qed

lemma Int63n_eq:
  assumes "0 < n" and "n < 2 ^ 63"
  shows "Int63n ks pos n =
    (if be63 ks pos \<le> 2 ^ 63 - 1 - 2 ^ 63 mod n
     then Some (be63 ks pos mod n, pos + 8)
     else Int63n ks (pos + 8) n)"
proof (cases "n AND (n - 1) = 0")
  case True
  have "2 ^ 63 mod n = 0" by (rule and_pred_mod(2) [OF assms(1) True assms(2)])
  moreover have "be63 ks pos AND (n - 1) = be63 ks pos mod n"
    by (rule and_pred_mod(1) [OF assms(1) True assms(2)])
  ultimately show ?thesis
    using True be63_lt [of ks pos] by (simp add: Int63n_def Int63_eq)
next
  case False
  then show ?thesis
    by (subst (1 2) Int63n_def) (simp add: Int63_upto.simps [of ks _ pos] Int63_eq)
qed
lemma Intn_eq:
  assumes "0 < n" and "n < 2 ^ 63"
  shows "Intn ks pos n =
    (if n < 2 ^ 31 then
       (if be63 ks pos div 2 ^ 32 \<le> 2 ^ 31 - 1 - 2 ^ 31 mod n
        then Some (be63 ks pos div 2 ^ 32 mod n, pos + 8)
        else Intn ks (pos + 8) n)
     else
       (if be63 ks pos \<le> 2 ^ 63 - 1 - 2 ^ 63 mod n
        then Some (be63 ks pos mod n, pos + 8)
        else Intn ks (pos + 8) n))"
proof (cases "n < 2 ^ 31")
  case True
  then have "Intn ks p n = Int31n ks p n" for p
    using assms(1) by (simp add: Intn_def)
  then show ?thesis using True Int31n_eq [OF assms(1) True, of ks pos] by simp
next
  case False
  then have "Intn ks p n = Int63n ks p n" for p
    using assms(1) by (simp add: Intn_def)
  then show ?thesis using False Int63n_eq [OF assms, of ks pos] by simp
qed

lemma be63_stream_5: "be63 (stream_of [0, 0, 0, 0, 0, 0, 0, 5]) 0 = 5"
  by (simp add: be63_def stream_of_def)

lemma Intn_stream_5: "Intn (stream_of [0, 0, 0, 0, 0, 0, 0, 5]) 0 3 = Some (0, 8)"
  by (subst Intn_eq) (simp_all add: be63_stream_5)

lemma be63_stream_rejected:
  "be63 (stream_of [0x7f, 0xff, 0xff, 0xff, 0, 0, 0, 0, 0, 0, 0, 1]) 0 div 2 ^ 32 = 2 ^ 31 - 1"
  "be63 (stream_of [0x7f, 0xff, 0xff, 0xff, 0, 0, 0, 0, 0, 0, 0, 1]) 8 div 2 ^ 32 = 1"
  unfolding be63_top by (simp_all add: stream_of_def)

lemma Intn_stream_rejected:
  "Intn (stream_of [0x7f, 0xff, 0xff, 0xff, 0, 0, 0, 0, 0, 0, 0, 1]) 0 3 = Some (1, 16)"
proof -
  let ?ks = "stream_of [0x7f, 0xff, 0xff, 0xff, 0, 0, 0, 0, 0, 0, 0, 1]"
  have "Intn ?ks 0 3 = Intn ?ks 8 3"
    using Intn_eq [of 3 ?ks 0] unfolding be63_stream_rejected by simp
  also have "\<dots> = Some (1, 16)"
    using Intn_eq [of 3 ?ks 8] unfolding be63_stream_rejected by simp
  finally show ?thesis .
qed

text \<open>
  C4 (amended). \<open>source.Int63\<close> consumes exactly eight keystream bytes and assembles them
  big-endian, with the top bit of the first byte masked off, into a 63-bit number. A
  bounded draw \<open>Intn(n)\<close> with \<open>1 \<le> n < 2^31\<close> takes the top 31 bits \<open>v\<close> of that number (the
  first four of the eight bytes); if \<open>v \<le> 2^31 - 1 - (2^31 mod n)\<close>, which always holds
  when \<open>n\<close> is a power of two, the draw is \<open>v mod n\<close>; otherwise the eight bytes are
  discarded and the draw is repeated on the next eight. For \<open>2^31 \<le> n < 2^63\<close> the same
  holds with the whole 63-bit number and \<open>2^63\<close>.
\<close>

theorem Intn_draw:
  assumes "1 \<le> n" and "n < 2 ^ 63"
  shows "Int63 ks pos =
           ((unat (ks pos) mod 128) * 2 ^ 56 + unat (ks (pos + 1)) * 2 ^ 48 +
            unat (ks (pos + 2)) * 2 ^ 40 + unat (ks (pos + 3)) * 2 ^ 32 +
            unat (ks (pos + 4)) * 2 ^ 24 + unat (ks (pos + 5)) * 2 ^ 16 +
            unat (ks (pos + 6)) * 2 ^ 8 + unat (ks (pos + 7)), pos + 8) \<and>
         fst (Int63 ks pos) div 2 ^ 32 =
           (unat (ks pos) mod 128) * 2 ^ 24 + unat (ks (pos + 1)) * 2 ^ 16 +
           unat (ks (pos + 2)) * 2 ^ 8 + unat (ks (pos + 3)) \<and>
         Intn ks pos n =
           (if n < 2 ^ 31 then
              (if fst (Int63 ks pos) div 2 ^ 32 \<le> 2 ^ 31 - 1 - 2 ^ 31 mod n
               then Some (fst (Int63 ks pos) div 2 ^ 32 mod n, pos + 8)
               else Intn ks (pos + 8) n)
            else
              (if fst (Int63 ks pos) \<le> 2 ^ 63 - 1 - 2 ^ 63 mod n
               then Some (fst (Int63 ks pos) mod n, pos + 8)
               else Intn ks (pos + 8) n))"
proof -
  have "0 < n" using assms(1) by simp
  from Intn_eq [OF this assms(2), of ks pos] show ?thesis
    by (simp only: Int63_eq fst_conv be63_top) (simp add: be63_def)
qed

text \<open>
  A draw with bound 3 from the bytes 0, 0, 0, 0, 0, 0, 0, 5: the top 31 bits are 0.
\<close>

theorem Intn_draw_witness:
  "Intn (stream_of [0, 0, 0, 0, 0, 0, 0, 5]) 0 3 = Some (0, 8)"
proof -
  have "1 \<le> (3 :: nat)" "(3 :: nat) < 2 ^ 63" by simp_all
  from Intn_draw [OF this, of "stream_of [0, 0, 0, 0, 0, 0, 0, 5]" 0]
  show ?thesis by (simp add: stream_of_def)
qed

text \<open>
  C4 as stated fails: on the bytes 0, 0, 0, 0, 0, 0, 0, 5 the 63-bit number is 5 and
  \<open>5 mod 3 = 2\<close>, but the draw with bound 3 is 0; and on the bytes 7f, ff, ff, ff the first
  draw is rejected, so the draw consumes sixteen bytes.
\<close>

theorem Intn_not_Int63_mod:
  "fst (Int63 (stream_of [0, 0, 0, 0, 0, 0, 0, 5]) 0) mod 3 = 2 \<and>
   Intn (stream_of [0, 0, 0, 0, 0, 0, 0, 5]) 0 3 = Some (0, 8) \<and>
   Intn (stream_of [0x7f, 0xff, 0xff, 0xff, 0, 0, 0, 0, 0, 0, 0, 1]) 0 3 = Some (1, 16)"
  using Intn_stream_5 Intn_stream_rejected by (simp add: Int63_eq be63_stream_5)

section \<open>The permutation and its inverse\<close>

lemma swap_indices_Nil': "swap_indices intn s [] = Some ([], s)"
  by (simp add: swap_indices.simps)

lemma swap_indices_map:
  "swap_indices intn s (map f xs) = map_option (apfst (map f)) (swap_indices intn s xs)"
proof (induction "length xs" arbitrary: xs s rule: less_induct)
  case less
  show ?case
  proof (cases "xs = []")
    case True
    then show ?thesis by (simp add: swap_indices_Nil')
  next
    case False
    then have pos: "0 < length xs" by simp
    show ?thesis
    proof (cases "intn s (length xs)")
      case None
      then show ?thesis
        using pos by (simp add: swap_indices.simps [of intn s xs] swap_indices.simps [of intn s "map f xs"])
    next
      case (Some a)
      obtain n s' where a: "a = (n, s')" by (cases a)
      show ?thesis
      proof (cases "n \<ge> length xs")
        case True
        then show ?thesis
          using pos Some a
          by (simp add: swap_indices.simps [of intn s xs] swap_indices.simps [of intn s "map f xs"])
      next
        case n: False
        define xs1 where "xs1 = xs[0 := xs ! n, n := xs ! 0]"
        have m1: "(map f xs)[0 := f (xs ! n), n := f (xs ! 0)] = map f xs1"
          using n pos by (simp add: xs1_def map_update)
        have IH: "swap_indices intn s' (map f (drop 1 xs1)) =
                  map_option (apfst (map f)) (swap_indices intn s' (drop 1 xs1))"
          by (rule less) (use pos in \<open>simp add: xs1_def\<close>)
        have l: "swap_indices intn s (map f xs) =
          (case swap_indices intn s' (map f (drop 1 xs1)) of None \<Rightarrow> None
           | Some (rest, s'') \<Rightarrow> Some (map f (take 1 xs1) @ rest, s''))"
          using pos Some a n
          by (simp add: swap_indices.simps [of intn s "map f xs"] m1 drop_map take_map Let_def
              cong: option.case_cong prod.case_cong)
        have r: "swap_indices intn s xs =
          (case swap_indices intn s' (drop 1 xs1) of None \<Rightarrow> None
           | Some (rest, s'') \<Rightarrow> Some (take 1 xs1 @ rest, s''))"
          using pos Some a n
          by (simp add: swap_indices.simps [of intn s xs] xs1_def Let_def
              cong: option.case_cong prod.case_cong)
        show ?thesis unfolding l r IH by (simp split: option.splits prod.splits)
      qed
    qed
  qed
qed

lemma swap_indices_mset:
  "swap_indices intn s xs = Some (ys, s') \<Longrightarrow> mset ys = mset xs"
proof (induction "length xs" arbitrary: xs s ys rule: less_induct)
  case less
  show ?case
  proof (cases "xs = []")
    case True
    then show ?thesis using less.prems by (simp add: swap_indices_Nil')
  next
    case False
    then have pos: "0 < length xs" by simp
    from less.prems pos obtain n s1 rest where
      n: "intn s (length xs) = Some (n, s1)" "n < length xs"
      and rest: "swap_indices intn s1 (drop 1 (xs[0 := xs ! n, n := xs ! 0])) = Some (rest, s')"
      and ys: "ys = take 1 (xs[0 := xs ! n, n := xs ! 0]) @ rest"
      by (subst (asm) swap_indices.simps)
        (auto simp: Let_def split: option.splits prod.splits if_splits)
    define xs1 where "xs1 = xs[0 := xs ! n, n := xs ! 0]"
    have h: "mset rest = mset (drop 1 xs1)"
      using rest by (intro less(1)) (use pos in \<open>simp_all add: xs1_def\<close>)
    have "mset ys = mset (take 1 xs1) + mset rest"
      by (simp add: ys xs1_def)
    also have "\<dots> = mset (take 1 xs1) + mset (drop 1 xs1)"
      unfolding h ..
    also have "\<dots> = mset xs1"
      by (metis append_take_drop_id mset_append)
    also have "\<dots> = mset xs"
      unfolding xs1_def using n(2) pos by (simp add: mset_swap)
    finally show ?thesis .
  qed
qed
lemma swap_indices_via_upt:
  "swap_indices intn s xs =
     map_option (apfst (map ((!) xs))) (swap_indices intn s [0..<length xs])"
  using swap_indices_map [of intn s "(!) xs" "[0..<length xs]"] by (simp add: map_nth)

lemma scatter_blocks:
  assumes "mset idx = mset [0..<n]" and "length blocks = n"
  shows "\<exists>ret. for_each [0..<length idx]
            (\<lambda>i ret. case at blocks i of None \<Rightarrow> None | Some b \<Rightarrow> put ret (idx ! i) b)
            (replicate n z) = Some ret \<and>
          length ret = n \<and> (\<forall>i<n. ret ! (idx ! i) = blocks ! i)"
proof -
  have len: "length idx = n" using mset_eq_length [OF assms(1)] by simp
  have set: "set idx = {0..<n}" using mset_eq_setD [OF assms(1)] by simp
  have dist: "distinct idx" using assms(1) by (metis distinct_upt mset_eq_imp_distinct_iff)
  let ?f = "\<lambda>i ret. case at blocks i of None \<Rightarrow> None | Some b \<Rightarrow> put ret (idx ! i) b"
  let ?I = "\<lambda>k ret. length ret = n \<and> (\<forall>i<k. ret ! (idx ! i) = blocks ! i)"
  have "\<exists>ret. for_each [0..<n] ?f (replicate n z) = Some ret \<and> ?I n ret"
  proof (rule for_each_upt_rule [where I = ?I])
    show "?I 0 (replicate n z)" by simp
  next
    fix k ret assume k: "k < n" and I: "?I k ret"
    have "idx ! k \<in> set idx" using k len by simp
    then have lt: "idx ! k < n" using set by simp
    have "?f k ret = Some (ret[idx ! k := blocks ! k])"
      using k lt I assms(2) by (simp add: at_def put_def)
    moreover have "?I (Suc k) (ret[idx ! k := blocks ! k])"
    proof (intro conjI allI impI)
      show "length (ret[idx ! k := blocks ! k]) = n" using I by simp
    next
      fix i assume i: "i < Suc k"
      show "ret[idx ! k := blocks ! k] ! (idx ! i) = blocks ! i"
      proof (cases "i = k")
        case True
        then show ?thesis using lt I by simp
      next
        case False
        then have "i < k" using i by simp
        moreover have "idx ! i \<noteq> idx ! k"
          using dist len k \<open>i < k\<close> by (simp add: nth_eq_iff_index_eq)
        ultimately show ?thesis using I by simp
      qed
    qed
    ultimately show "\<exists>a'. ?f k ret = Some a' \<and> ?I (Suc k) a'" by blast
  qed
  then show ?thesis by (simp add: len)
qed

lemma unpermute_of_swapped:
  assumes "swap_indices intn s xs = Some (ys, s')"
  shows "unpermuteBlocks intn s (map g ys) = Some (map g xs, s')"
proof -
  define n where "n = length xs"
  have leny: "length ys = n"
    using mset_eq_length [OF swap_indices_mset [OF assms]] by (simp add: n_def)
  from assms obtain idx where idx: "swap_indices intn s [0..<n] = Some (idx, s')"
    and ys: "ys = map ((!) xs) idx"
    unfolding swap_indices_via_upt [of intn s xs] n_def by auto
  have perm: "mset idx = mset [0..<n]" by (rule swap_indices_mset [OF idx])
  have len: "length idx = n" using mset_eq_length [OF perm] by simp
  have set: "set idx = {0..<n}" using mset_eq_setD [OF perm] by simp
  from scatter_blocks [OF perm, of "map g ys" "(0, 0, 0, 0)"] leny
  obtain ret where ret: "for_each [0..<length idx]
            (\<lambda>i ret. case at (map g ys) i of None \<Rightarrow> None | Some b \<Rightarrow> put ret (idx ! i) b)
            (replicate n (0, 0, 0, 0)) = Some ret"
    "length ret = n" "\<forall>i<n. ret ! (idx ! i) = map g ys ! i"
    by auto
  have "ret = map g xs"
  proof (rule nth_equalityI)
    show "length ret = length (map g xs)" using ret(2) by (simp add: n_def)
  next
    fix j assume "j < length ret"
    then have j: "j < n" using ret(2) by simp
    then have "j \<in> set idx" using set by simp
    then obtain i where i: "i < n" "idx ! i = j" using len by (auto simp: in_set_conv_nth)
    have "ret ! j = map g ys ! i" using ret(3) i by auto
    also have "\<dots> = g (xs ! j)" using i len by (simp add: ys)
    finally show "ret ! j = map g xs ! j" using j by (simp add: n_def)
  qed
  then show ?thesis
    using idx ret(1) leny by (simp add: unpermuteBlocks_def)
qed
lemma length_pairs_of [simp]: "length (pairs_of p) = length p div 2"
  by (simp add: pairs_of_def)

lemma nth_pairs_of: "i < length p div 2 \<Longrightarrow> pairs_of p ! i = (p ! (2 * i), p ! (2 * i + 1))"
  by (simp add: pairs_of_def)

lemma pairs_of_swap:
  assumes "even (length p)" and "r < length p div 2"
  defines "p1 \<equiv> p[0 := p ! (r * 2), r * 2 := p ! 0]"
  shows "pairs_of (p1[1 := p1 ! (r * 2 + 1), r * 2 + 1 := p1 ! 1]) =
         (pairs_of p)[0 := pairs_of p ! r, r := pairs_of p ! 0]"
proof (rule nth_equalityI)
  show "length (pairs_of (p1[1 := p1 ! (r * 2 + 1), r * 2 + 1 := p1 ! 1])) =
        length ((pairs_of p)[0 := pairs_of p ! r, r := pairs_of p ! 0])"
    by (simp add: p1_def)
next
  fix i assume "i < length (pairs_of (p1[1 := p1 ! (r * 2 + 1), r * 2 + 1 := p1 ! 1]))"
  then have i: "i < length p div 2" by (simp add: p1_def)
  from assms(1,2) i have b: "r * 2 + 1 < length p" "2 * i + 1 < length p" "0 < length p div 2"
    "0 < length p" "1 < length p" "r * 2 < length p" "2 * i < length p"
    by (auto elim!: evenE)
  have len1: "length p1 = length p" by (simp add: p1_def)
  have a: "p1 ! (r * 2 + 1) = p ! (r * 2 + 1)" "p1 ! 1 = p ! 1"
    using b by (simp_all add: p1_def nth_list_update)
  define p2 where "p2 = p1[1 := p1 ! (r * 2 + 1), r * 2 + 1 := p1 ! 1]"
  have len2: "length p2 = length p" by (simp add: p2_def len1)
  have e: "p2 ! (2 * i) =
           (if i = r then p ! 0 else if i = 0 then p ! (2 * r) else p ! (2 * i))"
    using b by (auto simp: p2_def p1_def nth_list_update mult.commute)
  have o: "p2 ! (2 * i + 1) =
           (if i = r then p ! 1 else if i = 0 then p ! (2 * r + 1) else p ! (2 * i + 1))"
    using b by (auto simp: p2_def a len1 nth_list_update mult.commute)
      (simp_all add: p1_def nth_list_update mult.commute)
  have l: "pairs_of p2 ! i = (p2 ! (2 * i), p2 ! (2 * i + 1))"
    using i by (simp add: nth_pairs_of len2)
  have r: "(pairs_of p)[0 := pairs_of p ! r, r := pairs_of p ! 0] ! i =
        (if i = r then (p ! 0, p ! 1) else if i = 0 then (p ! (2 * r), p ! (2 * r + 1))
         else (p ! (2 * i), p ! (2 * i + 1)))"
    using i assms(2) b(3) by (simp add: nth_pairs_of nth_list_update)
  show "pairs_of (p1[1 := p1 ! (r * 2 + 1), r * 2 + 1 := p1 ! 1]) ! i =
        (pairs_of p)[0 := pairs_of p ! r, r := pairs_of p ! 0] ! i"
    unfolding p2_def [symmetric] l r e o by simp
qed

lemma pairs_of_drop: "even (length q) \<Longrightarrow> pairs_of (drop 2 q) = drop 1 (pairs_of q)"
  by (rule nth_equalityI) (auto simp: nth_pairs_of elim!: evenE)

lemma pairs_of_take_append:
  assumes "2 \<le> length q"
  shows "pairs_of (take 2 q @ rest) = take 1 (pairs_of q) @ pairs_of rest"
proof -
  have t2: "length (take 2 q) = 2" using assms by simp
  have "1 \<le> length q div 2" using assms by simp
  then have t1: "length (take 1 (pairs_of q)) = 1" by simp
  have lenl: "length (take 2 q @ rest) div 2 = Suc (length rest div 2)"
    using assms by (simp add: min_def)
  show ?thesis
  proof (rule nth_equalityI)
    show "length (pairs_of (take 2 q @ rest)) = length (take 1 (pairs_of q) @ pairs_of rest)"
    proof -
      have "length (take 1 (pairs_of q) @ pairs_of rest) = Suc (length rest div 2)"
        by (simp only: length_append t1 length_pairs_of)
      then show ?thesis by (simp only: length_pairs_of lenl)
    qed
  next
    fix i assume "i < length (pairs_of (take 2 q @ rest))"
    then have i: "i < Suc (length rest div 2)" unfolding length_pairs_of lenl .
    have l: "pairs_of (take 2 q @ rest) ! i =
             ((take 2 q @ rest) ! (2 * i), (take 2 q @ rest) ! (2 * i + 1))"
      by (rule nth_pairs_of) (use i lenl in simp)
    show "pairs_of (take 2 q @ rest) ! i = (take 1 (pairs_of q) @ pairs_of rest) ! i"
    proof (cases i)
      case 0
      have "(take 1 (pairs_of q) @ pairs_of rest) ! 0 = pairs_of q ! 0"
        using t1 by (simp add: nth_append)
      also have "\<dots> = (q ! 0, q ! 1)"
        using assms by (simp add: nth_pairs_of)
      finally have r: "(take 1 (pairs_of q) @ pairs_of rest) ! 0 = (q ! 0, q ! 1)" .
      have "(take 2 q @ rest) ! 0 = q ! 0" "(take 2 q @ rest) ! 1 = q ! 1"
        using assms by (simp_all add: nth_append)
      then have "pairs_of (take 2 q @ rest) ! 0 = (q ! 0, q ! 1)"
        using l 0 by simp
      then show ?thesis using r 0 by simp
    next
      case (Suc j)
      then have j: "j < length rest div 2" using i by simp
      have "(take 1 (pairs_of q) @ pairs_of rest) ! Suc j = pairs_of rest ! j"
        using t1 by (simp add: nth_append)
      also have "\<dots> = (rest ! (2 * j), rest ! (2 * j + 1))"
        using j by (simp add: nth_pairs_of)
      finally have r: "(take 1 (pairs_of q) @ pairs_of rest) ! Suc j =
        (rest ! (2 * j), rest ! (2 * j + 1))" .
      have "(take 2 q @ rest) ! (2 * Suc j) = rest ! (2 * j)"
        "(take 2 q @ rest) ! (2 * Suc j + 1) = rest ! (2 * j + 1)"
        using assms by (simp_all add: nth_append min_def)
      then have "pairs_of (take 2 q @ rest) ! Suc j = (rest ! (2 * j), rest ! (2 * j + 1))"
        using l Suc by simp
      then show ?thesis using r Suc by simp
    qed
  qed
qed
lemma permuteHalfimage_pairs:
  assumes "even (length p)"
  shows "case permuteHalfimage intn s p of
           None \<Rightarrow> swap_indices intn s (pairs_of p) = None
         | Some (p', s') \<Rightarrow>
             length p' = length p \<and> swap_indices intn s (pairs_of p) = Some (pairs_of p', s')"
  using assms
proof (induction "length p" arbitrary: p s rule: less_induct)
  case less
  show ?case
  proof (cases "p = []")
    case True
    then show ?thesis
      by (simp add: permuteHalfimage.simps swap_indices.simps pairs_of_def)
  next
    case False
    with less.prems have len: "2 \<le> length p" by (cases p; cases "tl p") auto
    define N where "N = length p div 2"
    have N: "0 < N" "length p = 2 * N" "length (pairs_of p) = N"
      using len less.prems by (auto simp: N_def)
    show ?thesis
    proof (cases "intn s N")
      case None
      then show ?thesis
        using N by (simp add: permuteHalfimage.simps [of intn s p]
            swap_indices.simps [of intn s "pairs_of p"])
    next
      case (Some a)
      obtain r s1 where a: "a = (r, s1)" by (cases a)
      show ?thesis
      proof (cases "r \<ge> N")
        case True
        then show ?thesis
          using N Some a by (simp add: permuteHalfimage.simps [of intn s p]
              swap_indices.simps [of intn s "pairs_of p"])
      next
        case r: False
        define p1 where "p1 = p[0 := p ! (r * 2), r * 2 := p ! 0]"
        define p2 where "p2 = p1[1 := p1 ! (r * 2 + 1), r * 2 + 1 := p1 ! 1]"
        define ps where "ps = (pairs_of p)[0 := pairs_of p ! r, r := pairs_of p ! 0]"
        have len2: "length p2 = length p" by (simp add: p2_def p1_def)
        have ps: "pairs_of p2 = ps"
          unfolding p2_def p1_def ps_def
          using pairs_of_swap [OF less.prems, of r] r by (simp add: N_def)
        have pe: "permuteHalfimage intn s p =
          (case permuteHalfimage intn s1 (drop 2 p2) of None \<Rightarrow> None
           | Some (rest, s'') \<Rightarrow> Some (take 2 p2 @ rest, s''))"
          using N Some a r
          by (simp add: permuteHalfimage.simps [of intn s p] Let_def p2_def p1_def
              cong: option.case_cong prod.case_cong)
        have se: "swap_indices intn s (pairs_of p) =
          (case swap_indices intn s1 (drop 1 ps) of None \<Rightarrow> None
           | Some (rest, s'') \<Rightarrow> Some (take 1 ps @ rest, s''))"
          using N Some a r
          by (simp add: swap_indices.simps [of intn s "pairs_of p"] Let_def ps_def
              cong: option.case_cong prod.case_cong)
        have ev: "even (length (drop 2 p2))" using less.prems len2 by simp
        have dr: "pairs_of (drop 2 p2) = drop 1 ps"
          using pairs_of_drop [of p2] less.prems len2 ps by simp
        have IH: "case permuteHalfimage intn s1 (drop 2 p2) of
           None \<Rightarrow> swap_indices intn s1 (drop 1 ps) = None
         | Some (p', s') \<Rightarrow>
             length p' = length (drop 2 p2) \<and>
             swap_indices intn s1 (drop 1 ps) = Some (pairs_of p', s')"
        proof -
          have lt: "length (drop 2 p2) < length p" using len len2 by simp
          show ?thesis using less.hyps [OF lt ev, of s1] unfolding dr .
        qed
        show ?thesis
        proof (cases "permuteHalfimage intn s1 (drop 2 p2)")
          case None
          then show ?thesis using IH by (simp add: pe se)
        next
          case (Some b)
          obtain rest s2 where b: "b = (rest, s2)" by (cases b)
          from IH Some b have rest: "length rest = length p - 2"
            "swap_indices intn s1 (drop 1 ps) = Some (pairs_of rest, s2)"
            by (simp_all add: len2)
          have "pairs_of (take 2 p2 @ rest) = take 1 ps @ pairs_of rest"
            using pairs_of_take_append [of p2 rest] len len2 ps by simp
          then show ?thesis
            using Some b rest len len2 by (simp add: pe se min_def)
        qed
      qed
    qed
  qed
qed

lemma swap_indices_total:
  assumes "\<forall>s n. 0 < n \<longrightarrow> (\<exists>r s'. intn s n = Some (r, s') \<and> r < n)"
  shows "\<exists>ys s'. swap_indices intn s xs = Some (ys, s')"
proof (induction "length xs" arbitrary: xs s rule: less_induct)
  case less
  show ?case
  proof (cases "xs = []")
    case True
    then show ?thesis by (simp add: swap_indices.simps)
  next
    case False
    then have pos: "0 < length xs" by simp
    with assms obtain r s1 where r: "intn s (length xs) = Some (r, s1)" "r < length xs"
      by blast
    define xs1 where "xs1 = xs[0 := xs ! r, r := xs ! 0]"
    have "length (drop 1 xs1) < length xs" using pos by (simp add: xs1_def)
    from less [OF this, of s1] obtain rest s2 where
      "swap_indices intn s1 (drop 1 xs1) = Some (rest, s2)" by blast
    then show ?thesis
      using pos r by (simp add: swap_indices.simps [of intn s xs] Let_def xs1_def)
  qed
qed

lemma permuteHalfimage_total:
  assumes "\<forall>s n. 0 < n \<longrightarrow> (\<exists>r s'. intn s n = Some (r, s') \<and> r < n)" and "even (length p)"
  shows "\<exists>p' s'. permuteHalfimage intn s p = Some (p', s') \<and> length p' = length p"
proof -
  from swap_indices_total [OF assms(1), of s "pairs_of p"]
  have "swap_indices intn s (pairs_of p) \<noteq> None" by auto
  then show ?thesis
    using permuteHalfimage_pairs [OF assms(2), of intn s] by (auto split: option.splits)
qed

lemma blocks_of_pairs: "blocks_of p = map (\<lambda>(a, b). (a, b, 0, 0)) (pairs_of p)"
  by (simp add: blocks_of_def pairs_of_def)

lemma unpermute_permuted:
  assumes "even (length p)" and "permuteHalfimage intn s p = Some (p', s')"
  shows "unpermuteBlocks intn s (map g (pairs_of p')) = Some (map g (pairs_of p), s')"
proof -
  from permuteHalfimage_pairs [OF assms(1), of intn s] assms(2)
  have "swap_indices intn s (pairs_of p) = Some (pairs_of p', s')" by simp
  then show ?thesis by (rule unpermute_of_swapped)
qed

lemma unpermute_by_indices:
  assumes "swap_indices intn s [0..<n] = Some (idx, s')" and "length bs = n"
  shows "\<exists>ret. unpermuteBlocks intn s bs = Some (ret, s') \<and> length ret = n \<and>
           (\<forall>i<n. ret ! (idx ! i) = bs ! i)"
proof -
  have perm: "mset idx = mset [0..<n]" by (rule swap_indices_mset [OF assms(1)])
  from scatter_blocks [OF perm assms(2), of "(0, 0, 0, 0)"] assms
  show ?thesis by (auto simp: unpermuteBlocks_def)
qed

text \<open>
  C2. For every half-image \<open>p\<close> of even length and every generator: if \<open>permuteHalfimage\<close>
  returns \<open>p'\<close>, then \<open>p'\<close> has the length of \<open>p\<close>, and \<open>unpermuteBlocks\<close>, run with the
  generator in the same initial state, undoes the permutation whatever the blocks hold:
  for every way \<open>g\<close> of making a block from the two bytes of a pair (the layout
  \<open>(tl, 0, 0, br)\<close> of \<open>decrypt\<close>, the layout \<open>(p[2i], p[2i+1], 0, 0)\<close> of the test, or any
  other) the blocks of \<open>p'\<close> are returned in the order of \<open>p\<close>, and the generator is left in
  the same final state. More precisely there is one permutation \<open>idx\<close> of the block
  numbers such that \<open>permuteHalfimage\<close> moves pair \<open>idx[i]\<close> to place \<open>i\<close> and
  \<open>unpermuteBlocks\<close> moves the block at place \<open>i\<close> of any block array to place \<open>idx[i]\<close>.
  \<open>permuteHalfimage\<close> does return whenever every draw returns a number below its bound.
\<close>

theorem permute_unpermute_inverse:
  assumes "even (length p)"
  shows "(\<forall>p' s'. permuteHalfimage intn s p = Some (p', s') \<longrightarrow>
            length p' = length p \<and>
            (\<forall>g. unpermuteBlocks intn s (map g (pairs_of p')) = Some (map g (pairs_of p), s')) \<and>
            unpermuteBlocks intn s (blocks_of p') = Some (blocks_of p, s') \<and>
            (\<exists>idx. mset idx = mset [0..<length p div 2] \<and>
               (\<forall>i<length p div 2. pairs_of p' ! i = pairs_of p ! (idx ! i)) \<and>
               (\<forall>bs. length bs = length p div 2 \<longrightarrow>
                  (\<exists>ret. unpermuteBlocks intn s bs = Some (ret, s') \<and>
                     length ret = length p div 2 \<and>
                     (\<forall>i<length p div 2. ret ! (idx ! i) = bs ! i))))) \<and>
         ((\<forall>s n. 0 < n \<longrightarrow> (\<exists>r s'. intn s n = Some (r, s') \<and> r < n)) \<longrightarrow>
            (\<exists>p' s'. permuteHalfimage intn s p = Some (p', s')))"
proof -
  have 1: "length p' = length p \<and>
            (\<forall>g. unpermuteBlocks intn s (map g (pairs_of p')) = Some (map g (pairs_of p), s')) \<and>
            unpermuteBlocks intn s (blocks_of p') = Some (blocks_of p, s') \<and>
            (\<exists>idx. mset idx = mset [0..<length p div 2] \<and>
               (\<forall>i<length p div 2. pairs_of p' ! i = pairs_of p ! (idx ! i)) \<and>
               (\<forall>bs. length bs = length p div 2 \<longrightarrow>
                  (\<exists>ret. unpermuteBlocks intn s bs = Some (ret, s') \<and>
                     length ret = length p div 2 \<and>
                     (\<forall>i<length p div 2. ret ! (idx ! i) = bs ! i))))"
    if p': "permuteHalfimage intn s p = Some (p', s')" for p' s'
  proof -
    define n where "n = length p div 2"
    have len: "length p' = length p"
      using permuteHalfimage_pairs [OF assms, of intn s] p' by simp
    have sw: "swap_indices intn s (pairs_of p) = Some (pairs_of p', s')"
      using permuteHalfimage_pairs [OF assms, of intn s] p' by simp
    have g: "unpermuteBlocks intn s (map g (pairs_of p')) = Some (map g (pairs_of p), s')"
      for g :: "byte \<times> byte \<Rightarrow> quad"
      by (rule unpermute_permuted [OF assms p'])
    have b: "unpermuteBlocks intn s (blocks_of p') = Some (blocks_of p, s')"
      unfolding blocks_of_pairs by (rule unpermute_permuted [OF assms p'])
    from sw obtain idx where idx: "swap_indices intn s [0..<n] = Some (idx, s')"
      and ps: "pairs_of p' = map ((!) (pairs_of p)) idx"
      unfolding swap_indices_via_upt [of intn s "pairs_of p"] n_def by auto
    have perm: "mset idx = mset [0..<n]" by (rule swap_indices_mset [OF idx])
    have li: "length idx = n" using mset_eq_length [OF perm] by simp
    have nth: "\<forall>i<n. pairs_of p' ! i = pairs_of p ! (idx ! i)"
      using li by (simp add: ps)
    have un: "\<forall>bs. length bs = n \<longrightarrow>
                  (\<exists>ret. unpermuteBlocks intn s bs = Some (ret, s') \<and>
                     length ret = n \<and> (\<forall>i<n. ret ! (idx ! i) = bs ! i))"
      using unpermute_by_indices [OF idx] by blast
    show ?thesis
      using len g b perm nth un unfolding n_def by blast
  qed
  have 2: "\<exists>p' s'. permuteHalfimage intn s p = Some (p', s')"
    if "\<forall>s n. 0 < n \<longrightarrow> (\<exists>r s'. intn s n = Some (r, s') \<and> r < n)"
    using permuteHalfimage_total [OF that assms, of s] by blast
  show ?thesis using 1 2 by blast
qed

text \<open>
  Two blocks swapped and restored, in the layout of \<open>decrypt\<close> and in the layout of the
  test, and a permutation of three blocks that returns, with the counter generator.
\<close>

theorem permute_unpermute_inverse_witness:
  "permuteHalfimage counter_rand 1 [1, 2, 3, 4 :: byte] = Some ([3, 4, 1, 2], 3) \<and>
   unpermuteBlocks counter_rand 1 [(3, 0, 0, 4), (1, 0, 0, 2)] =
     Some ([(1, 0, 0, 2), (3, 0, 0, 4)], 3) \<and>
   unpermuteBlocks counter_rand 1 [(3, 4, 0, 0), (1, 2, 0, 0)] =
     Some ([(1, 2, 0, 0), (3, 4, 0, 0)], 3) \<and>
   (\<exists>p' s'. permuteHalfimage counter_rand 7 [1, 2, 3, 4, 5, 6 :: byte] = Some (p', s'))"
proof -
  have e: "even (length [1, 2, 3, 4 :: byte])" "even (length [1, 2, 3, 4, 5, 6 :: byte])"
    by simp_all
  have t: "\<forall>s n. 0 < n \<longrightarrow> (\<exists>r s'. counter_rand s n = Some (r, s') \<and> r < n)"
    by (simp add: counter_rand_def)
  have 2: "permuteHalfimage counter_rand c [a, b] = Some ([a, b], c + 1)" for c and a b :: byte
    by (simp add: permuteHalfimage.simps [of _ _ "[a, b]"] permuteHalfimage.simps [of _ _ "[]"]
        counter_rand_def)
  have 1: "permuteHalfimage counter_rand 1 [1, 2, 3, 4 :: byte] = Some ([3, 4, 1, 2], 3)"
    by (simp add: permuteHalfimage.simps [of _ _ "[1, 2, 3, 4]"] counter_rand_def 2)
  have u: "[0..<2] = [0, 1]" by (simp add: upt_rec)
  have p: "map (\<lambda>(a, b). (a, 0, 0, b)) (pairs_of [3, 4, 1, 2 :: byte]) = [(3, 0, 0, 4), (1, 0, 0, 2)]"
    "map (\<lambda>(a, b). (a, 0, 0, b)) (pairs_of [1, 2, 3, 4 :: byte]) = [(1, 0, 0, 2), (3, 0, 0, 4)]"
    "blocks_of [3, 4, 1, 2] = [(3, 4, 0, 0), (1, 2, 0, 0)]"
    "blocks_of [1, 2, 3, 4] = [(1, 2, 0, 0), (3, 4, 0, 0)]"
    by (simp_all add: pairs_of_def blocks_of_def u)
  from permute_unpermute_inverse [OF e(1), of counter_rand 1] 1
  have a: "unpermuteBlocks counter_rand 1 (map (\<lambda>(a, b). (a, 0, 0, b)) (pairs_of [3, 4, 1, 2 :: byte])) =
     Some (map (\<lambda>(a, b). (a, 0, 0, b)) (pairs_of [1, 2, 3, 4 :: byte]), 3)"
    and b: "unpermuteBlocks counter_rand 1 (blocks_of [3, 4, 1, 2]) = Some (blocks_of [1, 2, 3, 4], 3)"
    by blast+
  from permute_unpermute_inverse [OF e(2), of counter_rand 7] t
  have c: "\<exists>p' s'. permuteHalfimage counter_rand 7 [1, 2, 3, 4, 5, 6 :: byte] = Some (p', s')"
    by blast
  show ?thesis using 1 a b c unfolding p by blast
qed

section \<open>unpermuteBlocks does not write to its argument\<close>

lemma load_int_last [simp]: "load_int (st @ [Ints xs]) (length st) i = at xs i"
  by (simp add: load_int_def)

lemma store_int_last [simp]:
  "store_int (st @ [Ints xs]) (length st) i v = map_option (\<lambda>xs'. st @ [Ints xs']) (put xs i v)"
  by (simp add: store_int_def)

lemma init_indices:
  "for_each [0..<n] (\<lambda>i st'. store_int st' (length st) i i) (st @ [Ints (replicate n 0)]) =
   Some (st @ [Ints [0..<n]])"
proof -
  let ?I = "\<lambda>k st'. st' = st @ [Ints (map (\<lambda>i. if i < k then i else 0) [0..<n])]"
  have "\<exists>st'. for_each [0..<n] (\<lambda>i st'. store_int st' (length st) i i)
            (st @ [Ints (replicate n 0)]) = Some st' \<and> ?I n st'"
  proof (rule for_each_upt_rule [where I = ?I])
    show "?I 0 (st @ [Ints (replicate n 0)])"
      by (simp add: map_replicate_const)
  next
    fix k st' assume k: "k < n" and I: "?I k st'"
    have "(map (\<lambda>i. if i < k then i else 0) [0..<n])[k := k] =
          map (\<lambda>i. if i < Suc k then i else 0) [0..<n]"
      using k by (intro nth_equalityI) (auto simp: nth_list_update)
    then show "\<exists>a'. store_int st' (length st) k k = Some a' \<and> ?I (Suc k) a'"
      using k I by (simp add: put_def)
  qed
  moreover have "map (\<lambda>i. if i < n then i else 0) [0..<n] = [0..<n]"
    by (intro nth_equalityI) auto
  ultimately show ?thesis by simp
qed

lemma swap_indices_store_eq:
  assumes "length xs = n" and "off \<le> n"
  shows "swap_indices_store intn s (st @ [Ints xs]) (length st) n off =
    (case swap_indices intn s (drop off xs) of
       None \<Rightarrow> None
     | Some (ys, s') \<Rightarrow> Some (st @ [Ints (take off xs @ ys)], s'))"
  using assms
proof (induction "n - off" arbitrary: off xs s rule: less_induct)
  case less
  show ?case
  proof (cases "off < n")
    case False
    then have "off = n" using less.prems by simp
    then show ?thesis
      using less.prems
      by (simp add: swap_indices_store.simps [of intn s _ _ n n] swap_indices.simps [of intn s "[]"])
  next
    case off: True
    define zs where "zs = drop off xs"
    have lz: "length zs = n - off" "0 < length zs"
      using off less.prems by (simp_all add: zs_def)
    show ?thesis
    proof (cases "intn s (n - off)")
      case None
      then show ?thesis
        using off lz
        by (simp add: swap_indices_store.simps [of intn s _ _ n off]
            swap_indices.simps [of intn s zs] zs_def [symmetric])
    next
      case (Some a)
      obtain r s1 where a: "a = (r, s1)" by (cases a)
      show ?thesis
      proof (cases "r \<ge> n - off")
        case True
        then have "\<not> off + r < n" by simp
        with True show ?thesis
          using off lz Some a less.prems
          by (simp add: swap_indices_store.simps [of intn s _ _ n off]
              swap_indices.simps [of intn s zs] zs_def [symmetric] at_def)
      next
        case r: False
        define xs1 where "xs1 = xs[off := xs ! (off + r), off + r := xs ! off]"
        define zs1 where "zs1 = zs[0 := zs ! r, r := zs ! 0]"
        have len1: "length xs1 = n" using less.prems by (simp add: xs1_def)
        have z1: "zs1 = drop off xs1"
          using r off less.prems
          by (simp add: zs1_def xs1_def zs_def drop_update_swap)
        have lt: "off + r < n" using r off by simp
        have st: "swap_indices_store intn s (st @ [Ints xs]) (length st) n off =
                  swap_indices_store intn s1 (st @ [Ints xs1]) (length st) n (off + 1)"
          using off r lt Some a less.prems
          by (simp add: swap_indices_store.simps [of intn s _ _ n off] at_def put_def xs1_def)
        have pu: "swap_indices intn s zs =
          (case swap_indices intn s1 (drop 1 zs1) of None \<Rightarrow> None
           | Some (rest, s'') \<Rightarrow> Some (take 1 zs1 @ rest, s''))"
          using lz Some a r
          by (simp add: swap_indices.simps [of intn s zs] Let_def zs1_def
              cong: option.case_cong prod.case_cong)
        have IH: "swap_indices_store intn s1 (st @ [Ints xs1]) (length st) n (off + 1) =
          (case swap_indices intn s1 (drop (off + 1) xs1) of None \<Rightarrow> None
           | Some (ys, s') \<Rightarrow> Some (st @ [Ints (take (off + 1) xs1 @ ys)], s'))"
          by (rule less.hyps) (use off len1 in simp_all)
        have d: "drop 1 zs1 = drop (off + 1) xs1" by (simp add: z1)
        have t: "take off xs @ take 1 zs1 = take (off + 1) xs1"
        proof -
          have "take off xs1 = take off xs" by (simp add: xs1_def)
          moreover have "take (off + 1) xs1 = take off xs1 @ take 1 (drop off xs1)"
            by (rule take_add)
          ultimately show ?thesis by (simp add: z1)
        qed
        have t': "take (Suc off) xs1 = take off xs @ take (Suc 0) zs1"
          using t by simp
        show ?thesis
          unfolding st IH zs_def [symmetric] pu d
          by (simp add: t' split: option.splits prod.splits)
      qed
    qed
  qed
qed
lemma scatter_store:
  assumes "blocks < length st" and "st ! blocks = Blocks bs" and "\<forall>i\<in>set is. i < length idx"
  shows "for_each is (\<lambda>i st'. do {
             v \<leftarrow> load_int st' (length st) i;
             b \<leftarrow> load_block st' blocks i;
             store_block st' (Suc (length st)) v b
           }) (st @ [Ints idx, Blocks ret0]) =
         map_option (\<lambda>ret. st @ [Ints idx, Blocks ret])
           (for_each is (\<lambda>i ret. case at bs i of None \<Rightarrow> None | Some b \<Rightarrow> put ret (idx ! i) b)
              ret0)"
  using assms(3)
proof (induction "is" arbitrary: ret0)
  case Nil
  then show ?case by simp
next
  case (Cons i "is")
  have i: "i < length idx" using Cons.prems by simp
  have li: "load_int (st @ [Ints idx, Blocks ret0]) (length st) i = Some (idx ! i)"
    using i by (simp add: load_int_def nth_append at_def)
  have lb: "load_block (st @ [Ints idx, Blocks ret0]) blocks i = at bs i"
    using assms(1,2) by (simp add: load_block_def nth_append)
  have sb: "store_block (st @ [Ints idx, Blocks ret0]) (Suc (length st)) v b =
            map_option (\<lambda>ret. st @ [Ints idx, Blocks ret]) (put ret0 v b)" for v b
    by (simp add: store_block_def nth_append put_def list_update_append)
  show ?case
  proof (cases "at bs i")
    case None
    then show ?thesis by (simp add: li lb)
  next
    case (Some b)
    show ?thesis
    proof (cases "put ret0 (idx ! i) b")
      case None
      then show ?thesis using Some by (simp add: li lb sb)
    next
      case ret1: (Some ret1)
      have "\<forall>i\<in>set is. i < length idx" using Cons.prems by simp
      from Cons.IH [OF this, of ret1] show ?thesis
        using Some ret1 by (simp add: li lb sb)
    qed
  qed
qed

lemma unpermuteBlocks_store_eq:
  assumes "blocks < length st" and "st ! blocks = Blocks bs"
  shows "unpermuteBlocks_store intn s st blocks =
     (case swap_indices intn s [0..<length bs] of
        None \<Rightarrow> None
      | Some (indices, s') \<Rightarrow>
          (case unpermuteBlocks intn s bs of
             None \<Rightarrow> None
           | Some (ret, s'') \<Rightarrow> Some (Suc (length st), st @ [Ints indices, Blocks ret], s')))"
proof -
  define n where "n = length bs"
  have lb: "len_blocks st blocks = Some n"
    using assms by (simp add: len_blocks_def n_def)
  have sw: "swap_indices_store intn s (st @ [Ints [0..<n]]) (length st) n 0 =
    (case swap_indices intn s [0..<n] of None \<Rightarrow> None
     | Some (ys, s') \<Rightarrow> Some (st @ [Ints ys], s'))"
    using swap_indices_store_eq [of "[0..<n]" n 0 intn s st]
    by (simp cong: option.case_cong prod.case_cong)
  show ?thesis
  proof (cases "swap_indices intn s [0..<n]")
    case None
    then show ?thesis
      unfolding unpermuteBlocks_store_def
      by (simp add: lb alloc_def init_indices sw n_def [symmetric])
  next
    case (Some a)
    obtain idx s' where a: "a = (idx, s')" by (cases a)
    have len: "length idx = n"
      using mset_eq_length [OF swap_indices_mset [of intn s "[0..<n]" idx s']] Some a by simp
    have sc: "for_each [0..<n] (\<lambda>i st'. do {
             v \<leftarrow> load_int st' (length st) i;
             b \<leftarrow> load_block st' blocks i;
             store_block st' (Suc (length st)) v b
           }) (st @ [Ints idx, Blocks (replicate n (0, 0, 0, 0))]) =
         map_option (\<lambda>ret. st @ [Ints idx, Blocks ret])
           (for_each [0..<n] (\<lambda>i ret. case at bs i of None \<Rightarrow> None | Some b \<Rightarrow> put ret (idx ! i) b)
              (replicate n (0, 0, 0, 0)))"
      by (rule scatter_store [OF assms]) (simp add: len)
    show ?thesis
      unfolding unpermuteBlocks_store_def
      using Some a len
      by (simp add: lb alloc_def init_indices sw sc unpermuteBlocks_def n_def [symmetric]
          split: option.splits)
  qed
qed

text \<open>
  C10. With the input block array at an allocated address of the store: \<open>unpermuteBlocks\<close>
  returns exactly when its functional model does; it leaves every array that existed
  before the call unchanged, in particular the input array, appends the index array and
  the result array, and returns the address of the result array, which is new (not the
  address of the input) and holds the unpermuted blocks.
\<close>

theorem unpermuteBlocks_store_frame:
  assumes "blocks < length st" and "st ! blocks = Blocks bs"
  shows "unpermuteBlocks_store intn s st blocks =
     (case swap_indices intn s [0..<length bs] of
        None \<Rightarrow> None
      | Some (indices, s') \<Rightarrow>
          (case unpermuteBlocks intn s bs of
             None \<Rightarrow> None
           | Some (ret, s'') \<Rightarrow> Some (Suc (length st), st @ [Ints indices, Blocks ret], s'))) \<and>
    (\<forall>ret st' s'. unpermuteBlocks_store intn s st blocks = Some (ret, st', s') \<longrightarrow>
       ret \<noteq> blocks \<and> length st \<le> ret \<and> ret < length st' \<and>
       st' ! blocks = Blocks bs \<and> (\<forall>a<length st. st' ! a = st ! a) \<and>
       (\<exists>out. st' ! ret = Blocks out \<and> unpermuteBlocks intn s bs = Some (out, s')))"
proof -
  note eq = unpermuteBlocks_store_eq [OF assms, of intn s]
  have "ret \<noteq> blocks \<and> length st \<le> ret \<and> ret < length st' \<and>
       st' ! blocks = Blocks bs \<and> (\<forall>a<length st. st' ! a = st ! a) \<and>
       (\<exists>out. st' ! ret = Blocks out \<and> unpermuteBlocks intn s bs = Some (out, s'))"
    if r: "unpermuteBlocks_store intn s st blocks = Some (ret, st', s')" for ret st' s'
  proof -
    from r obtain idx out s'' where
      idx: "swap_indices intn s [0..<length bs] = Some (idx, s')"
      and out: "unpermuteBlocks intn s bs = Some (out, s'')"
      and ret: "ret = Suc (length st)" and st': "st' = st @ [Ints idx, Blocks out]"
      unfolding eq by (auto split: option.splits)
    have s'': "s'' = s'" using idx out by (auto simp: unpermuteBlocks_def split: option.splits)
    have "ret \<noteq> blocks" "length st \<le> ret" "ret < length st'"
      using assms(1) by (simp_all add: ret st')
    moreover have "st' ! blocks = Blocks bs" using assms by (simp add: st' nth_append)
    moreover have "\<forall>a<length st. st' ! a = st ! a" by (simp add: st' nth_append)
    moreover have "\<exists>out. st' ! ret = Blocks out \<and> unpermuteBlocks intn s bs = Some (out, s')"
      using out s'' by (simp add: ret st' nth_append)
    ultimately show ?thesis by blast
  qed
  with eq show ?thesis by blast
qed

text \<open>
  Two blocks in a store of one array: the result is a third array, the first is as it was.
\<close>

theorem unpermuteBlocks_store_frame_witness:
  "unpermuteBlocks_store counter_rand 1 [Blocks [(1, 0, 0, 2), (3, 0, 0, 4)]] 0 =
     Some (2, [Blocks [(1, 0, 0, 2), (3, 0, 0, 4)], Ints [1, 0],
               Blocks [(3, 0, 0, 4), (1, 0, 0, 2)]], 3)"
proof -
  let ?st = "[Blocks [(1, 0, 0, 2), (3, 0, 0, 4)]]"
  have a: "0 < length ?st" "?st ! 0 = Blocks [(1, 0, 0, 2), (3, 0, 0, 4)]" by simp_all
  have u: "[0..<2] = [0, 1]" by (simp add: upt_rec)
  have 1: "swap_indices counter_rand c [x] = Some ([x], c + 1)" for c and x :: nat
    by (simp add: swap_indices.simps [of _ _ "[x]"] swap_indices.simps [of _ _ "[]"]
        counter_rand_def)
  have 2: "swap_indices counter_rand 1 [0, 1 :: nat] = Some ([1, 0], 3)"
    by (subst swap_indices.simps) (simp add: counter_rand_def 1)
  have 3: "unpermuteBlocks counter_rand 1 [(1, 0, 0, 2), (3, 0, 0, 4)] =
           Some ([(3, 0, 0, 4), (1, 0, 0, 2)], 3)"
    using 2 by (simp add: unpermuteBlocks_def u at_def put_def)
  note th = unpermuteBlocks_store_frame [OF a, of counter_rand 1, THEN conjunct1]
  have l: "[0..<length [(1, 0, 0, 2), (3, 0, 0, 4) :: quad]] = [0, 1]"
    by (simp add: upt_rec)
  show ?thesis unfolding th l 2 3 by simp
qed

section \<open>Encryption, compression at quantization 1 and decryption\<close>

subsection \<open>Loops over the blocks of an image\<close>

text \<open>
  A loop nest over the rows and columns of the blocks visits block number \<open>y * bw + x\<close> at
  step \<open>y * bw + x\<close>; a loop that rewrites element \<open>i\<close> at step \<open>i\<close> is a map.
\<close>

lemma for_each_grid_rule:
  assumes "I 0 a"
    and "\<And>y x a. y < bh \<Longrightarrow> x < bw \<Longrightarrow> I (y * bw + x) a \<Longrightarrow>
           \<exists>a'. f y x a = Some a' \<and> I (Suc (y * bw + x)) a'"
  shows "\<exists>a'. for_each [0..<bh] (\<lambda>y a. for_each [0..<bw] (\<lambda>x a. f y x a) a) a = Some a' \<and>
              I (bh * bw) a'"
proof (rule for_each_upt_rule [where I = "\<lambda>y. I (y * bw)"])
  show "I (0 * bw) a" using assms(1) by simp
next
  fix y b assume y: "y < bh" and I: "I (y * bw) b"
  have "\<exists>a'. for_each [0..<bw] (\<lambda>x a. f y x a) b = Some a' \<and> I (y * bw + bw) a'"
  proof (rule for_each_upt_rule [where I = "\<lambda>x. I (y * bw + x)"])
    show "I (y * bw + 0) b" using I by simp
  next
    fix x c assume "x < bw" "I (y * bw + x) c"
    then show "\<exists>a'. f y x c = Some a' \<and> I (y * bw + Suc x) a'"
      using assms(2) [OF y, of x c] by simp
  qed
  then show "\<exists>a'. for_each [0..<bw] (\<lambda>x a. f y x a) b = Some a' \<and> I (Suc y * bw) a'"
    by (simp add: add.commute)
qed

lemma for_each_evens:
  "even n \<Longrightarrow> for_each (evens_below n) f a = for_each [0..<n div 2] (\<lambda>b. f (2 * b)) a"
proof -
  assume "even n"
  then have "(n + 1) div 2 = n div 2" by (auto elim!: evenE)
  then show ?thesis by (simp add: evens_below_map for_each_map)
qed

lemma block_div_mod:
  fixes x y bw :: nat
  assumes "x < bw"
  shows "(y * bw + x) div bw = y" "(y * bw + x) mod bw = x"
  using assms by simp_all

lemma block_pos:
  assumes "even w" and "x < w div 2"
  shows "tl_pos w (y * (w div 2) + x) = 2 * y * w + 2 * x"
    and "br_pos w (y * (w div 2) + x) = (2 * y + 1) * w + (2 * x + 1)"
  using assms by (simp_all add: tl_pos_def br_pos_def)

lemma block_bounds:
  fixes w h x y :: nat
  assumes "even w" and "even h" and "x < w div 2" and "y < h div 2"
  shows "2 * y * w + 2 * x < w * h" and "(2 * y + 1) * w + (2 * x + 1) < w * h"
    and "y * (w div 2) + x < (w div 2) * (h div 2)"
    and "2 * (y * (w div 2) + x) + 1 < w * h div 2"
    and "2 * y * w + (2 * x + 1) < w * h" and "(2 * y + 1) * w + 2 * x < w * h"
proof -
  obtain bw where w: "w = 2 * bw" using assms(1) by (auto elim!: evenE)
  obtain bh where h: "h = 2 * bh" using assms(2) by (auto elim!: evenE)
  have x: "x < bw" and y: "y < bh" using assms(3,4) w h by simp_all
  then have y1: "Suc y \<le> bh" by simp
  have m: "Suc y * bw \<le> bh * bw" using y1 by (rule mult_le_mono1)
  have 1: "y * bw + x < bh * bw" using m x by simp
  then show "y * (w div 2) + x < (w div 2) * (h div 2)" by (simp add: w h mult.commute)
  have 4: "4 * (y * bw + x) + 4 \<le> 4 * (bh * bw)" using 1 by simp
  have wh: "w * h = 4 * (bh * bw)" by (simp add: w h)
  have e: "2 * y * w + 2 * x = 4 * (y * bw) + 2 * x" by (simp add: w)
  have big: "4 * (Suc y * bw) \<le> 4 * (bh * bw)" using m by simp
  show "2 * y * w + 2 * x < w * h" unfolding wh e using big x by simp
  show "2 * y * w + (2 * x + 1) < w * h" unfolding wh e using big x by (simp add: w)
  show "(2 * y + 1) * w + (2 * x + 1) < w * h" unfolding wh using big x by (simp add: w)
  show "(2 * y + 1) * w + 2 * x < w * h" unfolding wh using big x by (simp add: w)
  show "2 * (y * (w div 2) + x) + 1 < w * h div 2" unfolding wh using 4 by (simp add: w)
qed

lemma for_each_pointwise:
  assumes "length xs0 = n"
    and "\<And>i xs. i < n \<Longrightarrow> length xs = n \<Longrightarrow> xs ! i = xs0 ! i \<Longrightarrow> f i xs = Some (xs[i := F i])"
  shows "for_each [0..<n] f xs0 = Some (map F [0..<n])"
proof -
  let ?I = "\<lambda>k xs. length xs = n \<and> (\<forall>i<k. xs ! i = F i) \<and> (\<forall>i. k \<le> i \<longrightarrow> i < n \<longrightarrow> xs ! i = xs0 ! i)"
  have "\<exists>xs. for_each [0..<n] f xs0 = Some xs \<and> ?I n xs"
  proof (rule for_each_upt_rule [where I = ?I])
    show "?I 0 xs0" using assms(1) by simp
  next
    fix k xs assume k: "k < n" and I: "?I k xs"
    have "xs ! k = xs0 ! k" using I k by blast
    then have "f k xs = Some (xs[k := F k])" using assms(2) [OF k, of xs] I by blast
    moreover have "?I (Suc k) (xs[k := F k])"
      using I k by (auto simp: nth_list_update less_Suc_eq)
    ultimately show "\<exists>a'. f k xs = Some a' \<and> ?I (Suc k) a'" by blast
  qed
  then obtain xs where xs: "for_each [0..<n] f xs0 = Some xs" "?I n xs" by blast
  have "xs = map F [0..<n]" using xs(2) by (intro nth_equalityI) simp_all
  then show ?thesis using xs(1) by simp
qed

text \<open>Distinct cells of a row-major image have distinct positions.\<close>

lemma pos_inj:
  fixes w c c' r r' :: nat
  assumes "c < w" and "c' < w" and "r * w + c = r' * w + c'"
  shows "r = r' \<and> c = c'"
proof -
  have "(r * w + c) div w = (r' * w + c') div w" "(r * w + c) mod w = (r' * w + c') mod w"
    using assms(3) by simp_all
  then show ?thesis using assms(1,2) by simp
qed

lemma block_pos_distinct:
  assumes w: "even w" and x: "x < w div 2" and b: "b \<noteq> y * (w div 2) + x"
  shows "tl_pos w b \<noteq> 2 * y * w + 2 * x" and "tl_pos w b \<noteq> 2 * y * w + (2 * x + 1)"
    and "tl_pos w b \<noteq> (2 * y + 1) * w + 2 * x" and "tl_pos w b \<noteq> (2 * y + 1) * w + (2 * x + 1)"
    and "br_pos w b \<noteq> 2 * y * w + 2 * x" and "br_pos w b \<noteq> 2 * y * w + (2 * x + 1)"
    and "br_pos w b \<noteq> (2 * y + 1) * w + 2 * x" and "br_pos w b \<noteq> (2 * y + 1) * w + (2 * x + 1)"
proof -
  define bw where "bw = w div 2"
  define yb xb where "yb = b div bw" and "xb = b mod bw"
  have bw: "0 < bw" using x by (simp add: bw_def)
  have xb: "xb < bw" using bw by (simp add: xb_def)
  have w2: "w = 2 * bw" using w by (auto simp: bw_def elim!: evenE)
  have bb: "b = yb * bw + xb" by (simp add: yb_def xb_def)
  have ne: "\<not> (yb = y \<and> xb = x)" using b bb by (auto simp: bw_def)
  have c: "2 * xb < w" "2 * xb + 1 < w" "2 * x < w" "2 * x + 1 < w"
  proof -
    have "x < bw" using x by (simp add: bw_def)
    then show "2 * xb < w" "2 * xb + 1 < w" "2 * x < w" "2 * x + 1 < w"
      using xb unfolding w2 by simp_all
  qed
  have tl: "tl_pos w b = (2 * yb) * w + 2 * xb" by (simp add: tl_pos_def yb_def xb_def bw_def)
  have br: "br_pos w b = (2 * yb + 1) * w + (2 * xb + 1)"
    by (simp add: br_pos_def yb_def xb_def bw_def)
  show "tl_pos w b \<noteq> 2 * y * w + 2 * x"
    unfolding tl using pos_inj [OF c(1) c(3), of "2 * yb" "2 * y"] ne by auto
  show "tl_pos w b \<noteq> 2 * y * w + (2 * x + 1)"
    unfolding tl using pos_inj [OF c(1) c(4), of "2 * yb" "2 * y"] by presburger
  show "tl_pos w b \<noteq> (2 * y + 1) * w + 2 * x"
    unfolding tl using pos_inj [OF c(1) c(3), of "2 * yb" "2 * y + 1"] by presburger
  show "tl_pos w b \<noteq> (2 * y + 1) * w + (2 * x + 1)"
    unfolding tl using pos_inj [OF c(1) c(4), of "2 * yb" "2 * y + 1"] by presburger
  show "br_pos w b \<noteq> 2 * y * w + 2 * x"
    unfolding br using pos_inj [OF c(2) c(3), of "2 * yb + 1" "2 * y"] by presburger
  show "br_pos w b \<noteq> 2 * y * w + (2 * x + 1)"
    unfolding br using pos_inj [OF c(2) c(4), of "2 * yb + 1" "2 * y"] by presburger
  show "br_pos w b \<noteq> (2 * y + 1) * w + 2 * x"
    unfolding br using pos_inj [OF c(2) c(3), of "2 * yb + 1" "2 * y + 1"] by presburger
  show "br_pos w b \<noteq> (2 * y + 1) * w + (2 * x + 1)"
    unfolding br using pos_inj [OF c(2) c(4), of "2 * yb + 1" "2 * y + 1"] ne by auto
qed

subsection \<open>The loops of Encrypt and decrypt\<close>

text \<open>
  After the loop nest of \<open>Encrypt\<close>, bytes \<open>2b\<close> and \<open>2b + 1\<close> of the half-image are the
  top-left and the bottom-right pixel of block \<open>b\<close>, each with the mask byte of the block
  added.
\<close>

lemma encrypt_loop:
  fixes px maskb h0 :: "byte list" and w h :: nat
  assumes w: "even w" and h: "even h"
    and len: "0 < w \<Longrightarrow> 0 < h \<Longrightarrow> length px = w * h"
    and mlen: "0 < w \<Longrightarrow> 0 < h \<Longrightarrow> length maskb = (w div 2) * (h div 2)"
    and hlen: "0 < w \<Longrightarrow> 0 < h \<Longrightarrow> length h0 = w * h div 2"
  shows "\<exists>hf. for_each (evens_below h) (\<lambda>y halfimage.
                for_each (evens_below w) (\<lambda>x halfimage. do {
                  a \<leftarrow> at px (y * w + x);
                  m \<leftarrow> at maskb (y div 2 * w div 2 + x div 2);
                  halfimage \<leftarrow> put halfimage (y div 2 * w + x) (a + m);
                  b \<leftarrow> at px ((y + 1) * w + (x + 1));
                  put halfimage ((y + 1) div 2 * w + (x + 1)) (b + m)
                }) halfimage) h0 = Some hf \<and>
           length hf = length h0 \<and>
           (\<forall>b < (h div 2) * (w div 2).
              hf ! (2 * b) = px ! tl_pos w b + maskb ! b \<and>
              hf ! (2 * b + 1) = px ! br_pos w b + maskb ! b)"
proof -
  define bw bh where "bw = w div 2" and "bh = h div 2"
  define P where "P = (\<lambda>b (hf :: byte list).
              hf ! (2 * b) = px ! tl_pos w b + maskb ! b \<and>
              hf ! (2 * b + 1) = px ! br_pos w b + maskb ! b)"
  define I where "I = (\<lambda>k (hf :: byte list). length hf = length h0 \<and> (\<forall>b<k. P b hf))"
  define f where "f = (\<lambda>y x (halfimage :: byte list). do {
                  a \<leftarrow> at px (2 * y * w + 2 * x);
                  m \<leftarrow> at maskb (2 * y div 2 * w div 2 + 2 * x div 2);
                  halfimage \<leftarrow> put halfimage (2 * y div 2 * w + 2 * x) (a + m);
                  b \<leftarrow> at px ((2 * y + 1) * w + (2 * x + 1));
                  put halfimage ((2 * y + 1) div 2 * w + (2 * x + 1)) (b + m)
                })"
  have "\<exists>hf. for_each [0..<bh] (\<lambda>y a. for_each [0..<bw] (\<lambda>x a. f y x a) a) h0 = Some hf \<and>
             I (bh * bw) hf"
  proof (rule for_each_grid_rule)
    show "I 0 h0" by (simp add: I_def)
  next
    fix y x hf assume y: "y < bh" and x: "x < bw" and I: "I (y * bw + x) hf"
    define b where "b = y * bw + x"
    have pos: "0 < w" "0 < h" using x y by (auto simp: bw_def bh_def)
    have xw: "x < w div 2" and yh: "y < h div 2" using x y by (simp_all add: bw_def bh_def)
    note bb = block_bounds [OF w h xw yh]
    note bp = block_pos [OF w xw, of y]
    have lhf: "length hf = w * h div 2" using I hlen [OF pos] by (simp add: I_def)
    have w2: "w = 2 * bw" using w by (auto simp: bw_def elim!: evenE)
    have i1: "2 * y div 2 * w div 2 + 2 * x div 2 = b"
      by (simp add: b_def w2)
    have i2: "2 * y div 2 * w + 2 * x = 2 * b" by (simp add: b_def w2 algebra_simps)
    have i3: "(2 * y + 1) div 2 * w + (2 * x + 1) = 2 * b + 1"
      by (simp add: b_def w2 algebra_simps)
    have bl: "b < length maskb" using bb(3) mlen [OF pos] by (simp add: b_def bw_def)
    have b2: "2 * b + 1 < length hf" using bb(4) lhf by (simp add: b_def bw_def)
    have fv: "f y x hf = Some (hf[2 * b := px ! (2 * y * w + 2 * x) + maskb ! b,
                  2 * b + 1 := px ! ((2 * y + 1) * w + (2 * x + 1)) + maskb ! b])"
      unfolding f_def i1 i2 i3
      using bb(1,2) len [OF pos] bl b2 by (simp add: at_def put_def)
    have "I (Suc b) (hf[2 * b := px ! (2 * y * w + 2 * x) + maskb ! b,
                  2 * b + 1 := px ! ((2 * y + 1) * w + (2 * x + 1)) + maskb ! b])"
      unfolding I_def
    proof (intro conjI allI impI)
      show "length (hf[2 * b := px ! (2 * y * w + 2 * x) + maskb ! b,
                  2 * b + 1 := px ! ((2 * y + 1) * w + (2 * x + 1)) + maskb ! b]) = length h0"
        using I by (simp add: I_def)
    next
      fix c assume c: "c < Suc b"
      show "P c (hf[2 * b := px ! (2 * y * w + 2 * x) + maskb ! b,
                  2 * b + 1 := px ! ((2 * y + 1) * w + (2 * x + 1)) + maskb ! b])"
      proof (cases "c = b")
        case True
        then show ?thesis
          using b2 bp by (simp add: P_def b_def bw_def)
      next
        case False
        then have "c < b" using c by simp
        then have "P c hf" using I by (simp add: I_def b_def)
        then show ?thesis using \<open>c < b\<close> by (simp add: P_def)
      qed
    qed
    then show "\<exists>a'. f y x hf = Some a' \<and> I (Suc (y * bw + x)) a'"
      using fv by (simp add: b_def)
  qed
  then show ?thesis
    unfolding for_each_evens [OF w] for_each_evens [OF h] f_def I_def P_def bw_def bh_def
    by simp
qed

text \<open>The three loops of \<open>decrypt\<close> over the blocks.\<close>

lemma decrypt_blocks_loop:
  fixes Q D T :: "byte list"
  assumes "length Q = n" and "n \<le> length D" and "\<forall>i<n. unat (D ! i) < length T"
  shows "for_each [0..<n] (\<lambda>i blocks. do {
            q \<leftarrow> at Q i;
            d \<leftarrow> at D i;
            t \<leftarrow> at T (unat d);
            (b0, b1, b2, b3) \<leftarrow> at blocks i;
            Some (blocks[i := (q, b1, b2, q + t)])
          }) (replicate n (0, 0, 0, 0) :: quad list) =
         Some (map (\<lambda>i. (Q ! i, 0, 0, Q ! i + T ! unat (D ! i))) [0..<n])"
proof (rule for_each_pointwise)
  show "length (replicate n (0 :: byte, 0 :: byte, 0 :: byte, 0 :: byte)) = n" by simp
next
  fix i and xs :: "quad list"
  assume i: "i < n" and len: "length xs = n" and xi: "xs ! i = replicate n (0, 0, 0, 0) ! i"
  have a1: "at Q i = Some (Q ! i)" using i assms(1) by (simp add: at_def)
  have a2: "at D i = Some (D ! i)" using i assms(2) by (simp add: at_def)
  have a3: "at T (unat (D ! i)) = Some (T ! unat (D ! i))" using i assms(3) by (simp add: at_def)
  have a4: "at xs i = Some (0, 0, 0, 0)" using i len xi by (simp add: at_def)
  show "do {
            q \<leftarrow> at Q i;
            d \<leftarrow> at D i;
            t \<leftarrow> at T (unat d);
            (b0, b1, b2, b3) \<leftarrow> at xs i;
            Some (xs[i := (q, b1, b2, q + t)])
          } = Some (xs[i := (Q ! i, 0, 0, Q ! i + T ! unat (D ! i))])"
    by (simp only: a1 a2 a3 a4 Option.bind.simps prod.case)
qed

lemma unmask_loop:
  fixes blocks :: "quad list" and maskb :: "byte list"
  assumes "length blocks = length maskb"
  shows "for_each [0..<length maskb] (\<lambda>i blocks. do {
            (b0, b1, b2, b3) \<leftarrow> at blocks i;
            Some (blocks[i := (b0 - maskb ! i, b1, b2, b3 - maskb ! i)])
          }) blocks =
         Some (map (\<lambda>i. case blocks ! i of
                           (b0, b1, b2, b3) \<Rightarrow> (b0 - maskb ! i, b1, b2, b3 - maskb ! i))
                 [0..<length maskb])"
proof (rule for_each_pointwise)
  show "length blocks = length maskb" by (rule assms)
next
  fix i and xs :: "quad list"
  assume i: "i < length maskb" and len: "length xs = length maskb" and xi: "xs ! i = blocks ! i"
  obtain c0 c1 c2 c3 where c: "blocks ! i = (c0, c1, c2, c3)" by (cases "blocks ! i")
  have a: "at xs i = Some (c0, c1, c2, c3)" using i len xi c by (simp add: at_def)
  show "do {
            (b0, b1, b2, b3) \<leftarrow> at xs i;
            Some (xs[i := (b0 - maskb ! i, b1, b2, b3 - maskb ! i)])
          } = Some (xs[i := case blocks ! i of
                           (b0, b1, b2, b3) \<Rightarrow> (b0 - maskb ! i, b1, b2, b3 - maskb ! i)])"
    by (simp only: a c Option.bind.simps prod.case)
qed

text \<open>
  \<open>interpolateBlocks\<close> writes components 1 and 2 of each block only: components 0 and 3
  are those of its argument.
\<close>

lemma interpolateBlocks_frame:
  assumes "bh * bw \<le> length blocks"
  shows "\<exists>bl. interpolateBlocks blocks bw bh T = Some bl \<and> length bl = length blocks \<and>
           (\<forall>i<length blocks. q0 (bl ! i) = q0 (blocks ! i) \<and> q3 (bl ! i) = q3 (blocks ! i))"
proof -
  define I where "I = (\<lambda>(k :: nat) (bl :: quad list). length bl = length blocks \<and>
           (\<forall>i<length blocks. q0 (bl ! i) = q0 (blocks ! i) \<and> q3 (bl ! i) = q3 (blocks ! i)))"
  define f where "f = (\<lambda>y x (blocks :: quad list).
         let i = y * bw + x;
             up = (y - 1) * bw + x;
             right = y * bw + x + 1;
             down = (y + 1) * bw + x;
             left = y * bw + x - 1
         in do {
           (c0, c1, c2, c3) \<leftarrow> at blocks i;
           n0 \<leftarrow> (if y > 0 then map_option q3 (at blocks up) else Some c3);
           n1 \<leftarrow> (if x + 1 < bw then map_option q0 (at blocks right) else Some c0);
           let blocks = blocks[i := (c0, cai (n0, n1, c3, c0) T, c2, c3)];
           (c0, c1, c2, c3) \<leftarrow> at blocks i;
           n2 \<leftarrow> (if y + 1 < bh then map_option q0 (at blocks down) else Some c0);
           n3 \<leftarrow> (if x > 0 then map_option q3 (at blocks left) else Some c3);
           Some (blocks[i := (c0, c1, cai (c0, c3, n2, n3) T, c3)])
         })"
  have "\<exists>bl. for_each [0..<bh] (\<lambda>y a. for_each [0..<bw] (\<lambda>x a. f y x a) a) blocks = Some bl \<and>
             I (bh * bw) bl"
  proof (rule for_each_grid_rule)
    show "I 0 blocks" by (simp add: I_def)
  next
    fix y x bl assume y: "y < bh" and x: "x < bw" and I: "I (y * bw + x) bl"
    define i where "i = y * bw + x"
    have len: "length bl = length blocks" using I by (simp add: I_def)
    have "Suc y * bw \<le> bh * bw" using y by (intro mult_le_mono1) simp
    then have rows: "y * bw + bw \<le> length blocks" using assms by simp
    have i: "i < length bl" using rows x len by (simp add: i_def)
    have up: "(y - 1) * bw + x < length bl" if "0 < y"
    proof -
      have "(y - 1) * bw \<le> y * bw" by (intro mult_le_mono1) simp
      then show ?thesis using i unfolding i_def by linarith
    qed
    have right: "y * bw + x + 1 < length bl" if "x + 1 < bw"
      using that rows len by simp
    have down: "(y + 1) * bw + x < length bl" if "y + 1 < bh"
    proof -
      have "Suc (Suc y) * bw \<le> bh * bw" using that by (intro mult_le_mono1) simp
      then have "(y + 1) * bw + bw \<le> bh * bw" by simp
      then show ?thesis using assms x len by linarith
    qed
    have left: "y * bw + x - 1 < length bl" using i by (simp add: i_def)
    obtain c0 c1 c2 c3 where c: "bl ! i = (c0, c1, c2, c3)" by (cases "bl ! i")
    define n0 where "n0 = (if y > 0 then q3 (bl ! ((y - 1) * bw + x)) else c3)"
    define n1 where "n1 = (if x + 1 < bw then q0 (bl ! (y * bw + x + 1)) else c0)"
    define bl1 where "bl1 = bl[i := (c0, cai (n0, n1, c3, c0) T, c2, c3)]"
    define n2 where "n2 = (if y + 1 < bh then q0 (bl1 ! ((y + 1) * bw + x)) else c0)"
    define n3 where "n3 = (if x > 0 then q3 (bl1 ! (y * bw + x - 1)) else c3)"
    define bl2 where "bl2 = bl1[i := (c0, cai (n0, n1, c3, c0) T, cai (c0, c3, n2, n3) T, c3)]"
    have len1: "length bl1 = length bl" by (simp add: bl1_def)
    have c1: "bl1 ! i = (c0, cai (n0, n1, c3, c0) T, c2, c3)" using i by (simp add: bl1_def)
    have s1: "(if y > 0 then map_option q3 (at bl ((y - 1) * bw + x)) else Some c3) = Some n0"
      using up by (simp add: at_def n0_def)
    have s2: "(if x + 1 < bw then map_option q0 (at bl (y * bw + x + 1)) else Some c0) = Some n1"
      using right by (simp add: at_def n1_def)
    have s3: "(if y + 1 < bh then map_option q0 (at bl1 ((y + 1) * bw + x)) else Some c0) = Some n2"
      using down len1 by (simp add: at_def n2_def)
    have s4: "(if x > 0 then map_option q3 (at bl1 (y * bw + x - 1)) else Some c3) = Some n3"
      using left len1 by (simp add: at_def n3_def)
    have a0: "at bl (y * bw + x) = Some (c0, c1, c2, c3)"
      using i c by (simp add: at_def i_def)
    have a1: "at bl1 (y * bw + x) = Some (c0, cai (n0, n1, c3, c0) T, c2, c3)"
      using i c1 len1 by (simp add: at_def i_def)
    have b1: "bl[y * bw + x := (c0, cai (n0, n1, c3, c0) T, c2, c3)] = bl1"
      by (simp add: bl1_def i_def)
    have b2: "bl1[y * bw + x := (c0, cai (n0, n1, c3, c0) T, cai (c0, c3, n2, n3) T, c3)] = bl2"
      by (simp add: bl2_def i_def)
    have fv: "f y x bl = Some bl2"
      by (simp only: f_def Let_def a0 Option.bind.simps prod.case s1 s2 b1 a1 s3 s4 b2)
    have "I (Suc i) bl2"
      unfolding I_def
    proof (intro conjI allI impI)
      show "length bl2 = length blocks" using len by (simp add: bl2_def bl1_def)
    next
      fix j assume j: "j < length blocks"
      have "q0 (bl2 ! j) = q0 (bl ! j) \<and> q3 (bl2 ! j) = q3 (bl ! j)"
        using i c by (cases "j = i") (simp_all add: bl2_def bl1_def q0_def q3_def)
      then show "q0 (bl2 ! j) = q0 (blocks ! j)" "q3 (bl2 ! j) = q3 (blocks ! j)"
        using I j by (simp_all add: I_def)
    qed
    then show "\<exists>a'. f y x bl = Some a' \<and> I (Suc (y * bw + x)) a'"
      using fv by (simp add: i_def)
  qed
  then show ?thesis
    unfolding interpolateBlocks_def f_def I_def by simp
qed

text \<open>
  The last loop nest of \<open>decrypt\<close> writes each block to its four pixels; components 0 and 3
  end up at the top-left and the bottom-right pixel of the block.
\<close>

lemma assemble_loop:
  fixes blocks :: "quad list" and p0 :: "byte list"
  assumes w: "even w" and bl: "bh * (w div 2) \<le> length blocks"
    and pl: "w * (2 * bh) \<le> length p0"
  shows "\<exists>px. for_each [0..<bh] (\<lambda>y pixels.
            for_each [0..<w div 2] (\<lambda>x pixels. do {
              (b0, b1, b2, b3) \<leftarrow> at blocks (y * (w div 2) + x);
              pixels \<leftarrow> put pixels (2 * y * w + 2 * x) b0;
              pixels \<leftarrow> put pixels (2 * y * w + (2 * x + 1)) b1;
              pixels \<leftarrow> put pixels ((2 * y + 1) * w + 2 * x) b2;
              put pixels ((2 * y + 1) * w + (2 * x + 1)) b3
            }) pixels) p0 = Some px \<and>
          length px = length p0 \<and>
          (\<forall>b < bh * (w div 2). px ! tl_pos w b = q0 (blocks ! b) \<and>
                                 px ! br_pos w b = q3 (blocks ! b))"
proof -
  define bw where "bw = w div 2"
  define I where "I = (\<lambda>k (px :: byte list). length px = length p0 \<and>
     (\<forall>b<k. px ! tl_pos w b = q0 (blocks ! b) \<and> px ! br_pos w b = q3 (blocks ! b)))"
  define f where "f = (\<lambda>y x (pixels :: byte list). do {
              (b0, b1, b2, b3) \<leftarrow> at blocks (y * bw + x);
              pixels \<leftarrow> put pixels (2 * y * w + 2 * x) b0;
              pixels \<leftarrow> put pixels (2 * y * w + (2 * x + 1)) b1;
              pixels \<leftarrow> put pixels ((2 * y + 1) * w + 2 * x) b2;
              put pixels ((2 * y + 1) * w + (2 * x + 1)) b3
            })"
  have "\<exists>px. for_each [0..<bh] (\<lambda>y a. for_each [0..<bw] (\<lambda>x a. f y x a) a) p0 = Some px \<and>
             I (bh * bw) px"
  proof (rule for_each_grid_rule)
    show "I 0 p0" by (simp add: I_def)
  next
    fix y x px assume y: "y < bh" and x: "x < bw" and I: "I (y * bw + x) px"
    define k where "k = y * bw + x"
    have len: "length px = length p0" using I by (simp add: I_def)
    have xw: "x < w div 2" using x by (simp add: bw_def)
    have yh: "y < (2 * bh) div 2" using y by simp
    have bnd: "2 * y * w + 2 * x < w * (2 * bh)" "(2 * y + 1) * w + (2 * x + 1) < w * (2 * bh)"
      "2 * y * w + (2 * x + 1) < w * (2 * bh)" "(2 * y + 1) * w + 2 * x < w * (2 * bh)"
      "y * (w div 2) + x < (w div 2) * ((2 * bh) div 2)"
      using block_bounds [OF w _ xw yh] by simp_all
    have kb: "k < length blocks" using bnd(5) bl by (simp add: k_def bw_def mult.commute)
    obtain c0 c1 c2 c3 where c: "blocks ! k = (c0, c1, c2, c3)" by (cases "blocks ! k")
    define P0 P1 P2 P3 where "P0 = 2 * y * w + 2 * x" and "P1 = 2 * y * w + (2 * x + 1)"
      and "P2 = (2 * y + 1) * w + 2 * x" and "P3 = (2 * y + 1) * w + (2 * x + 1)"
    have P: "P0 < length px" "P1 < length px" "P2 < length px" "P3 < length px"
      using bnd(1-4) pl len by (simp_all add: P0_def P1_def P2_def P3_def)
    have wpos: "0 < w" using xw by auto
    have d: "P0 \<noteq> P1" "P0 \<noteq> P2" "P0 \<noteq> P3" "P1 \<noteq> P3" "P2 \<noteq> P3"
      using wpos by (simp_all add: P0_def P1_def P2_def P3_def)
    define px' where "px' = px[P0 := c0, P1 := c1, P2 := c2, P3 := c3]"
    have a: "at blocks (y * bw + x) = Some (c0, c1, c2, c3)"
      using kb c by (simp add: at_def k_def)
    have p1: "put px P0 c0 = Some (px[P0 := c0])" using P by (simp add: put_def)
    have p2: "put (px[P0 := c0]) P1 c1 = Some (px[P0 := c0, P1 := c1])"
      using P by (simp add: put_def)
    have p3: "put (px[P0 := c0, P1 := c1]) P2 c2 = Some (px[P0 := c0, P1 := c1, P2 := c2])"
      using P by (simp add: put_def)
    have p4: "put (px[P0 := c0, P1 := c1, P2 := c2]) P3 c3 = Some px'"
      using P by (simp add: put_def px'_def)
    have fv: "f y x px = Some px'"
      by (simp only: f_def a Option.bind.simps prod.case P0_def [symmetric] P1_def [symmetric]
            P2_def [symmetric] P3_def [symmetric] p1 p2 p3 p4)
    have tlk: "tl_pos w k = P0" and brk: "br_pos w k = P3"
      using block_pos [OF w xw, of y] by (simp_all add: k_def bw_def P0_def P3_def)
    have new: "px' ! tl_pos w k = q0 (blocks ! k)" "px' ! br_pos w k = q3 (blocks ! k)"
      using P d by (simp_all add: tlk brk px'_def c q0_def q3_def)
    have old: "px' ! tl_pos w b = px ! tl_pos w b \<and> px' ! br_pos w b = px ! br_pos w b"
      if "b < k" for b
    proof -
      have "b \<noteq> y * (w div 2) + x" using that by (simp add: k_def bw_def)
      from block_pos_distinct [OF w xw this]
      show ?thesis by (simp add: px'_def P0_def P1_def P2_def P3_def)
    qed
    have "I (Suc k) px'"
      unfolding I_def
    proof (intro conjI allI impI)
      show "length px' = length p0" using len by (simp add: px'_def)
    next
      fix b assume "b < Suc k"
      then consider "b < k" | "b = k" by linarith
      then show "px' ! tl_pos w b = q0 (blocks ! b)"
        using old new I by cases (auto simp: I_def k_def)
    next
      fix b assume "b < Suc k"
      then consider "b < k" | "b = k" by linarith
      then show "px' ! br_pos w b = q3 (blocks ! b)"
        using old new I by cases (auto simp: I_def k_def)
    qed
    then show "\<exists>a'. f y x px = Some a' \<and> I (Suc (y * bw + x)) a'"
      using fv by (simp add: k_def)
  qed
  then show ?thesis by (simp add: f_def I_def bw_def)
qed

subsection \<open>Draws of the random source\<close>

lemma and_pred_less:
  fixes v n :: nat
  assumes "0 < n"
  shows "v AND (n - 1) < n"
proof -
  have "int v AND int (n - 1) \<le> int (n - 1)" by (rule AND_upper2) simp
  then have "int (v AND (n - 1)) \<le> int (n - 1)" by (simp only: of_nat_and_eq)
  then have "v AND (n - 1) \<le> n - 1" by (simp only: of_nat_le_iff)
  then show ?thesis using assms by simp
qed

lemma Intn_bound:
  assumes "Intn ks pos n = Some (r, pos')"
  shows "r < n"
proof -
  have n: "0 < n" using assms by (cases "n = 0") (simp_all add: Intn_def)
  have m: "v mod n < n" for v using n by simp
  show ?thesis
    using assms and_pred_less [OF n] m
    by (auto simp: Intn_def Int31n_def Int63n_def split: if_splits prod.splits option.splits)
qed

lemma Intn_zero_stream:
  assumes "0 < n"
  shows "Intn (stream_of []) pos n \<noteq> None"
proof -
  have z: "be63 (stream_of []) p = 0" for p by (simp add: be63_def stream_of_def)
  have a: "Int31_upto (stream_of []) mx p = Some (0, p + 8)" for mx p
    by (subst Int31_upto.simps) (simp add: Int31_eq z)
  have b: "Int63_upto (stream_of []) mx p = Some (0, p + 8)" for mx p
    by (subst Int63_upto.simps) (simp add: Int63_eq z)
  show ?thesis
    using assms by (simp add: Intn_def Int31n_def Int63n_def a b split: prod.splits)
qed

subsection \<open>The three stages\<close>

lemma dims_nat:
  fixes W H :: int and L :: nat
  assumes "even W" and "even H" and "int L = W * H"
  shows "even (nat W)" and "even (nat H)"
    and "0 < nat W \<Longrightarrow> 0 < nat H \<Longrightarrow> L = nat W * nat H"
    and "4 dvd L"
proof -
  obtain a where a: "W = 2 * a" using assms(1) by (auto elim!: evenE)
  obtain b where b: "H = 2 * b" using assms(2) by (auto elim!: evenE)
  show "even (nat W)" unfolding a by (simp add: nat_mult_distrib)
  show "even (nat H)" unfolding b by (simp add: nat_mult_distrib)
  show "L = nat W * nat H" if "0 < nat W" "0 < nat H"
  proof -
    have "nat (int L) = nat (W * H)" using assms(3) by simp
    then show ?thesis using that by (simp add: nat_mult_distrib)
  qed
  have "int L = int 4 * (a * b)" using assms(3) a b by simp
  then have "int 4 dvd int L" by (rule dvdI)
  then show "4 dvd L" by (simp only: int_dvd_int_iff)
qed

lemma dims_blocks:
  fixes W H :: int and L :: nat
  assumes "even W" and "even H" and "int L = W * H"
  shows "nat H div 2 * (nat W div 2) \<le> L div 4"
    and "nat W * (2 * (nat H div 2)) \<le> L"
    and "L div 2 div 2 = L div 4" and "L div 4 * 4 = L" and "even (L div 2)"
    and "0 < nat W \<Longrightarrow> 0 < nat H \<Longrightarrow> L div 4 = nat W div 2 * (nat H div 2)"
    and "0 < nat W \<Longrightarrow> 0 < nat H \<Longrightarrow> L div 2 = nat W * nat H div 2"
proof -
  note d = dims_nat [OF assms]
  obtain bw where w: "nat W = 2 * bw" using d(1) by (auto elim!: evenE)
  obtain bh where h: "nat H = 2 * bh" using d(2) by (auto elim!: evenE)
  obtain n where n: "L = 4 * n" using d(4) by (auto elim!: dvdE)
  have pos: "n = bw * bh" if "0 < nat W" "0 < nat H"
    using d(3) [OF that] unfolding w h n by simp
  show "L div 2 div 2 = L div 4" "L div 4 * 4 = L" "even (L div 2)"
    unfolding n by simp_all
  show "L div 4 = nat W div 2 * (nat H div 2)" if "0 < nat W" "0 < nat H"
    using pos [OF that] unfolding w h n by simp
  show "L div 2 = nat W * nat H div 2" if "0 < nat W" "0 < nat H"
    using pos [OF that] unfolding w h n by simp
  show "nat H div 2 * (nat W div 2) \<le> L div 4"
  proof (cases "0 < nat W \<and> 0 < nat H")
    case True
    then show ?thesis using pos unfolding w h n by simp
  next
    case False
    then show ?thesis by auto
  qed
  show "nat W * (2 * (nat H div 2)) \<le> L"
  proof (cases "0 < nat W \<and> 0 < nat H")
    case True
    then show ?thesis using pos unfolding w h n by simp
  next
    case False
    then show ?thesis by auto
  qed
qed

lemma qtable_entry_one: "qtable_entry d 1 k = of_nat k"
  by (simp add: qtable_entry_def TrailingZeros8_1)

lemma OnesCount8_1: "OnesCount8 1 = 1"
  using OnesCount8_exp [of 0] by simp

lemma Encrypt_eq:
  assumes W: "even (Width img)" and H: "even (Height img)"
    and L: "int (length (Image img)) = Width img * Height img"
    and gs: "genSalt = Inr salt"
    and draws: "\<forall>pos n. 0 < n \<longrightarrow> Intn (newRNG key salt) pos n \<noteq> None"
  shows "\<exists>hf hf' pos'.
           Encrypt newRNG genSalt img key =
             Some (Inr \<lparr>Width = Width img, Height = Height img,
                        PadWidth = PadHeight img, PadHeight = PadHeight img,
                        Salt = salt, Halfimage = hf'\<rparr>) \<and>
           length hf = length (Image img) div 2 \<and> length hf' = length hf \<and>
           permuteHalfimage (Intn (newRNG key salt)) (length (Image img) div 4) hf = Some (hf', pos') \<and>
           (\<forall>b < nat (Height img) div 2 * (nat (Width img) div 2).
              hf ! (2 * b) = Image img ! tl_pos (nat (Width img)) b + newRNG key salt b \<and>
              hf ! (2 * b + 1) = Image img ! br_pos (nat (Width img)) b + newRNG key salt b)"
proof -
  let ?rng = "newRNG key salt"
  let ?n = "length (Image img) div 4"
  let ?maskb = "map ?rng [0..<?n]"
  let ?h0 = "replicate (length (Image img) div 2) (0 :: byte)"
  note d = dims_nat [OF W H L]
  note e = dims_blocks [OF W H L]
  have R: "Read ?rng 0 ?n = (?maskb, ?n)" by (simp add: Read_def)
  have "\<exists>hf. for_each (evens_below (nat (Height img))) (\<lambda>y halfimage.
                for_each (evens_below (nat (Width img))) (\<lambda>x halfimage. do {
                  a \<leftarrow> at (Image img) (y * nat (Width img) + x);
                  m \<leftarrow> at ?maskb (y div 2 * nat (Width img) div 2 + x div 2);
                  halfimage \<leftarrow> put halfimage (y div 2 * nat (Width img) + x) (a + m);
                  b \<leftarrow> at (Image img) ((y + 1) * nat (Width img) + (x + 1));
                  put halfimage ((y + 1) div 2 * nat (Width img) + (x + 1)) (b + m)
                }) halfimage) ?h0 = Some hf \<and>
           length hf = length ?h0 \<and>
           (\<forall>b < (nat (Height img) div 2) * (nat (Width img) div 2).
              hf ! (2 * b) = Image img ! tl_pos (nat (Width img)) b + ?maskb ! b \<and>
              hf ! (2 * b + 1) = Image img ! br_pos (nat (Width img)) b + ?maskb ! b)"
  proof (rule encrypt_loop [OF d(1) d(2)])
    assume p: "0 < nat (Width img)" "0 < nat (Height img)"
    show "length (Image img) = nat (Width img) * nat (Height img)" by (rule d(3) [OF p])
    show "length ?maskb = nat (Width img) div 2 * (nat (Height img) div 2)"
      using e(6) [OF p] by simp
    show "length ?h0 = nat (Width img) * nat (Height img) div 2"
      using e(7) [OF p] by simp
  qed
  then obtain hf where
    loop: "for_each (evens_below (nat (Height img))) (\<lambda>y halfimage.
                for_each (evens_below (nat (Width img))) (\<lambda>x halfimage. do {
                  a \<leftarrow> at (Image img) (y * nat (Width img) + x);
                  m \<leftarrow> at ?maskb (y div 2 * nat (Width img) div 2 + x div 2);
                  halfimage \<leftarrow> put halfimage (y div 2 * nat (Width img) + x) (a + m);
                  b \<leftarrow> at (Image img) ((y + 1) * nat (Width img) + (x + 1));
                  put halfimage ((y + 1) div 2 * nat (Width img) + (x + 1)) (b + m)
                }) halfimage) ?h0 = Some hf"
    and len: "length hf = length ?h0"
    and val: "\<forall>b < (nat (Height img) div 2) * (nat (Width img) div 2).
              hf ! (2 * b) = Image img ! tl_pos (nat (Width img)) b + ?maskb ! b \<and>
              hf ! (2 * b + 1) = Image img ! br_pos (nat (Width img)) b + ?maskb ! b"
    by blast
  have lhf: "length hf = length (Image img) div 2" using len by simp
  have total: "\<forall>s n. 0 < n \<longrightarrow> (\<exists>r s'. Intn ?rng s n = Some (r, s') \<and> r < n)"
  proof (intro allI impI)
    fix s n :: nat assume "0 < n"
    then obtain r s' where "Intn ?rng s n = Some (r, s')" using draws by fastforce
    then show "\<exists>r s'. Intn ?rng s n = Some (r, s') \<and> r < n" using Intn_bound by blast
  qed
  have "even (length hf)" using e(5) lhf by simp
  from permuteHalfimage_total [OF total this, of ?n]
  obtain hf' pos' where perm: "permuteHalfimage (Intn ?rng) ?n hf = Some (hf', pos')"
    and lhf': "length hf' = length hf" by blast
  have enc: "Encrypt newRNG genSalt img key =
             Some (Inr \<lparr>Width = Width img, Height = Height img,
                        PadWidth = PadHeight img, PadHeight = PadHeight img,
                        Salt = salt, Halfimage = hf'\<rparr>)"
    by (simp only: Encrypt_def gs sum.case Let_def R prod.case loop perm Option.bind.simps)
  have m: "?maskb ! b = ?rng b" if "b < nat (Height img) div 2 * (nat (Width img) div 2)" for b
  proof -
    have "b < ?n" using that e(1) by linarith
    then show ?thesis by simp
  qed
  show ?thesis
    using enc lhf lhf' perm val m by (intro exI [of _ hf] exI [of _ hf'] exI [of _ pos']) simp
qed

lemma compress_one:
  assumes "even (length (Halfimage enc))"
  shows "compress enc 1 =
           Some (Inr \<lparr>Width = Width enc, Height = Height enc,
                      PadWidth = PadHeight enc, PadHeight = PadHeight enc, Salt = Salt enc,
                      Quarterimage = map (\<lambda>i. Halfimage enc ! (2 * i)) [0..<length (Halfimage enc) div 2],
                      Qtable = map of_nat [0..<256],
                      Qdiffs = diffs_of (Halfimage enc)\<rparr>)"
proof -
  have q: "qtable_entry d 1 = (of_nat :: nat \<Rightarrow> byte)" for d
    by (rule ext) (rule qtable_entry_one)
  show ?thesis
    unfolding compress_eq [OF assms(1)] by (simp add: OnesCount8_1 TrailingZeros8_1 q)
qed

lemma Compress_one:
  assumes "even (length (Halfimage enc))"
    and "Encode (length (Halfimage enc) div 2) (diffs_of (Halfimage enc)) = Inr e"
  shows "Compress Encode enc 1 =
           Some (Inr \<lparr>Width = Width enc, Height = Height enc,
                      PadWidth = PadHeight enc, PadHeight = PadHeight enc, Salt = Salt enc,
                      Quarterimage = map (\<lambda>i. Halfimage enc ! (2 * i)) [0..<length (Halfimage enc) div 2],
                      Qtable = map of_nat [0..<256],
                      EncQdiffs = e\<rparr>)"
proof -
  have l: "length (diffs_of h) = length h div 2" for h by (simp add: diffs_of_def)
  show ?thesis
    unfolding Compress_def compress_one [OF assms(1)] by (simp add: l assms(2))
qed

lemma decrypt_eq:
  fixes c :: compressedImage
  assumes dl: "length (Quarterimage c) \<le> length (Qdiffs c)"
    and tl: "length (Qtable c) = 256"
    and up: "unpermuteBlocks (Intn (newRNG key (Salt c))) (length (Quarterimage c))
               (map (\<lambda>i. (Quarterimage c ! i, 0, 0,
                           Quarterimage c ! i + Qtable c ! unat (Qdiffs c ! i)))
                  [0..<length (Quarterimage c)]) = Some (ub, pos')"
    and ul: "length ub = length (Quarterimage c)"
    and w: "even (nat (Width c))"
    and nb: "nat (Height c) div 2 * (nat (Width c) div 2) \<le> length (Quarterimage c)"
    and np: "nat (Width c) * (2 * (nat (Height c) div 2)) \<le> length (Quarterimage c) * 4"
  shows "\<exists>px. decrypt newRNG c key =
                 Some (Inr \<lparr>Width = Width c, Height = Height c,
                            PadWidth = PadWidth c, PadHeight = PadHeight c, Image = px\<rparr>) \<and>
              length px = length (Quarterimage c) * 4 \<and>
              (\<forall>b < nat (Height c) div 2 * (nat (Width c) div 2).
                 px ! tl_pos (nat (Width c)) b = q0 (ub ! b) - newRNG key (Salt c) b \<and>
                 px ! br_pos (nat (Width c)) b = q3 (ub ! b) - newRNG key (Salt c) b)"
proof -
  let ?n = "length (Quarterimage c)"
  let ?rng = "newRNG key (Salt c)"
  let ?maskb = "map ?rng [0..<?n]"
  let ?w = "nat (Width c)"
  let ?bh = "nat (Height c) div 2"
  let ?mb = "map (\<lambda>i. case ub ! i of
                           (b0, b1, b2, b3) \<Rightarrow> (b0 - ?maskb ! i, b1, b2, b3 - ?maskb ! i))
                 [0..<length ?maskb]"
  have R: "Read ?rng 0 ?n = (?maskb, ?n)" by (simp add: Read_def)
  have r: "\<forall>i<?n. unat (Qdiffs c ! i) < length (Qtable c)"
    unfolding tl using unat_byte_lt by simp
  note D1 = decrypt_blocks_loop [OF refl dl r]
  have "length ub = length ?maskb" using ul by simp
  note D2 = unmask_loop [OF this]
  have lmb: "length ?mb = ?n" by simp
  have "?bh * (?w div 2) \<le> length ?mb" using nb by simp
  from interpolateBlocks_frame [OF this, of 20]
  obtain ib where D3: "interpolateBlocks ?mb (?w div 2) ?bh 20 = Some ib"
    and lib: "length ib = length ?mb"
    and qib: "\<forall>i<length ?mb. q0 (ib ! i) = q0 (?mb ! i) \<and> q3 (ib ! i) = q3 (?mb ! i)"
    by blast
  have b1: "?bh * (?w div 2) \<le> length ib" using nb lib by simp
  have b2: "?w * (2 * ?bh) \<le> length (replicate (?n * 4) (0 :: byte))" using np by simp
  from assemble_loop [OF w b1 b2]
  obtain px where D4: "for_each [0..<?bh] (\<lambda>y pixels.
            for_each [0..<?w div 2] (\<lambda>x pixels. do {
              (b0, b1, b2, b3) \<leftarrow> at ib (y * (?w div 2) + x);
              pixels \<leftarrow> put pixels (2 * y * ?w + 2 * x) b0;
              pixels \<leftarrow> put pixels (2 * y * ?w + (2 * x + 1)) b1;
              pixels \<leftarrow> put pixels ((2 * y + 1) * ?w + 2 * x) b2;
              put pixels ((2 * y + 1) * ?w + (2 * x + 1)) b3
            }) pixels) (replicate (?n * 4) 0) = Some px"
    and lpx: "length px = length (replicate (?n * 4) (0 :: byte))"
    and vpx: "\<forall>b < ?bh * (?w div 2). px ! tl_pos ?w b = q0 (ib ! b) \<and>
                                 px ! br_pos ?w b = q3 (ib ! b)"
    by blast
  have dec: "decrypt newRNG c key =
                 Some (Inr \<lparr>Width = Width c, Height = Height c,
                            PadWidth = PadWidth c, PadHeight = PadHeight c, Image = px\<rparr>)"
    by (simp only: decrypt_def Let_def R prod.case D1 up D2 D3 D4 Option.bind.simps)
  have v: "px ! tl_pos ?w b = q0 (ub ! b) - ?rng b \<and> px ! br_pos ?w b = q3 (ub ! b) - ?rng b"
    if b: "b < ?bh * (?w div 2)" for b
  proof -
    have bn: "b < ?n" using b nb by linarith
    obtain c0 c1 c2 c3 where u: "ub ! b = (c0, c1, c2, c3)" by (cases "ub ! b")
    have "?mb ! b = (c0 - ?rng b, c1, c2, c3 - ?rng b)" using bn u by simp
    then have "q0 (?mb ! b) = q0 (ub ! b) - ?rng b" "q3 (?mb ! b) = q3 (ub ! b) - ?rng b"
      using u by (simp_all add: q0_def q3_def)
    moreover have "q0 (ib ! b) = q0 (?mb ! b)" "q3 (ib ! b) = q3 (?mb ! b)"
      using qib bn lmb by simp_all
    ultimately show ?thesis using vpx b by simp
  qed
  show ?thesis using dec lpx v by (intro exI [of _ px]) simp
qed

subsection \<open>The round trip\<close>

text \<open>
  C1. For every image of even \<open>Width\<close> and \<open>Height\<close> whose data holds \<open>Width * Height\<close>
  bytes and every key: when \<open>genSalt\<close> succeeds, the draws of \<open>Intn\<close> on the keystream
  return, and the entropy coder round-trips on the quantized differences of this image
  (\<open>Decode\<close> gives back what \<open>Encode\<close> was given), then \<open>Encrypt\<close>, \<open>Compress\<close> at
  quantization 1 and \<open>Decrypt\<close> all return without error, and the decrypted image has the
  \<open>Width\<close>, the \<open>Height\<close> and the number of bytes of the original and agrees with it at the
  top-left pixel \<open>(2x, 2y)\<close> and at the bottom-right pixel \<open>(2x + 1, 2y + 1)\<close> of every
  2x2 block. The pixel \<open>(col, row)\<close> is byte \<open>row * Width + col\<close>.
\<close>

theorem roundtrip_keeps_block_diagonal:
  assumes W: "even (Width img)" and H: "even (Height img)"
    and L: "int (length (Image img)) = Width img * Height img"
    and gs: "genSalt = Inr salt"
    and draws: "\<forall>pos n. 0 < n \<longrightarrow> Intn (newRNG key salt) pos n \<noteq> None"
    and codec: "\<forall>enc c. Encrypt newRNG genSalt img key = Some (Inr enc) \<longrightarrow>
                  compress enc 1 = Some (Inr c) \<longrightarrow>
                  (\<exists>e. Encode (length (Qdiffs c)) (Qdiffs c) = Inr e \<and>
                       Decode (length (Quarterimage c)) e = Inr (Qdiffs c))"
  shows "\<exists>enc cimg out.
           Encrypt newRNG genSalt img key = Some (Inr enc) \<and>
           Compress Encode enc 1 = Some (Inr cimg) \<and>
           Decrypt Decode newRNG cimg key = Some (Inr out) \<and>
           Width out = Width img \<and> Height out = Height img \<and>
           length (Image out) = length (Image img) \<and>
           (\<forall>x y. x < nat (Width img) div 2 \<longrightarrow> y < nat (Height img) div 2 \<longrightarrow>
              Image out ! (2 * y * nat (Width img) + 2 * x) =
                Image img ! (2 * y * nat (Width img) + 2 * x) \<and>
              Image out ! ((2 * y + 1) * nat (Width img) + (2 * x + 1)) =
                Image img ! ((2 * y + 1) * nat (Width img) + (2 * x + 1)))"
proof -
  let ?rng = "newRNG key salt"
  let ?w = "nat (Width img)"
  let ?h = "nat (Height img)"
  let ?g = "\<lambda>(a :: byte, b :: byte). (a, 0 :: byte, 0 :: byte, b)"
  note d = dims_nat [OF W H L]
  note e = dims_blocks [OF W H L]
  from Encrypt_eq [where newRNG = newRNG and key = key, OF W H L gs draws]
  obtain hf hf' pos' where
    enc: "Encrypt newRNG genSalt img key =
             Some (Inr \<lparr>Width = Width img, Height = Height img,
                        PadWidth = PadHeight img, PadHeight = PadHeight img,
                        Salt = salt, Halfimage = hf'\<rparr>)"
    and lhf: "length hf = length (Image img) div 2" and lhf': "length hf' = length hf"
    and perm: "permuteHalfimage (Intn ?rng) (length (Image img) div 4) hf = Some (hf', pos')"
    and val: "\<forall>b < ?h div 2 * (?w div 2).
              hf ! (2 * b) = Image img ! tl_pos ?w b + ?rng b \<and>
              hf ! (2 * b + 1) = Image img ! br_pos ?w b + ?rng b"
    by blast
  let ?enc = "\<lparr>Width = Width img, Height = Height img,
                        PadWidth = PadHeight img, PadHeight = PadHeight img,
                        Salt = salt, Halfimage = hf'\<rparr>"
  let ?n = "length hf' div 2"
  let ?Q = "map (\<lambda>i. hf' ! (2 * i)) [0..<?n]"
  let ?T = "map of_nat [0..<256] :: byte list"
  let ?D = "diffs_of hf'"
  have ld: "length (diffs_of p) = length p div 2" for p by (simp add: diffs_of_def)
  have n: "?n = length (Image img) div 4" using lhf lhf' e(3) by simp
  have evhf: "even (length hf)" using e(5) lhf by simp
  have ev: "even (length (Halfimage ?enc))" using evhf lhf' by simp
  note c1 = compress_one [OF ev]
  from codec [rule_format, OF enc c1]
  obtain e' where en: "Encode ?n ?D = Inr e'" and de: "Decode ?n e' = Inr ?D"
    by (auto simp: ld)
  have "Encode (length (Halfimage ?enc) div 2) (diffs_of (Halfimage ?enc)) = Inr e'"
    using en by simp
  from Compress_one [where Encode = Encode and e = e', OF ev this]
  have cmp: "Compress Encode ?enc 1 =
           Some (Inr \<lparr>Width = Width img, Height = Height img,
                      PadWidth = PadHeight img, PadHeight = PadHeight img, Salt = salt,
                      Quarterimage = ?Q, Qtable = ?T, EncQdiffs = e'\<rparr>)"
    by simp
  let ?cimg = "\<lparr>Width = Width img, Height = Height img,
                      PadWidth = PadHeight img, PadHeight = PadHeight img, Salt = salt,
                      Quarterimage = ?Q, Qtable = ?T, EncQdiffs = e'\<rparr>"
  let ?c = "\<lparr>Width = Width img, Height = Height img,
                      PadWidth = PadHeight img, PadHeight = PadHeight img, Salt = salt,
                      Quarterimage = ?Q, Qtable = ?T, Qdiffs = ?D\<rparr>"
  have dec0: "Decrypt Decode newRNG ?cimg key = decrypt newRNG ?c key"
    by (simp add: Decrypt_def de)
  have t: "?T ! unat v = v" for v :: byte using unat_byte_lt [of v] by simp
  have blocks: "map (\<lambda>i. (?Q ! i, 0, 0, ?Q ! i + ?T ! unat (?D ! i))) [0..<?n] =
                map ?g (pairs_of hf')"
  proof (rule nth_equalityI)
    show "length (map (\<lambda>i. (?Q ! i, 0, 0, ?Q ! i + ?T ! unat (?D ! i))) [0..<?n]) =
          length (map ?g (pairs_of hf'))"
      by (simp add: pairs_of_def)
  next
    fix i assume "i < length (map (\<lambda>i. (?Q ! i, 0, 0, ?Q ! i + ?T ! unat (?D ! i))) [0..<?n])"
    then have i: "i < ?n" by simp
    then show "map (\<lambda>i. (?Q ! i, 0, 0, ?Q ! i + ?T ! unat (?D ! i))) [0..<?n] ! i =
               map ?g (pairs_of hf') ! i"
      by (simp add: pairs_of_def diffs_of_def t)
  qed
  have perm': "permuteHalfimage (Intn ?rng) ?n hf = Some (hf', pos')" using perm n by simp
  have up0: "unpermuteBlocks (Intn ?rng) ?n
               (map (\<lambda>i. (?Q ! i, 0, 0, ?Q ! i + ?T ! unat (?D ! i))) [0..<?n]) =
             Some (map ?g (pairs_of hf), pos')"
    unfolding blocks by (rule unpermute_permuted [OF evhf perm'])
  have a1: "length (Quarterimage ?c) \<le> length (Qdiffs ?c)" by (simp add: ld)
  have a2: "length (Qtable ?c) = 256" by simp
  have a3: "unpermuteBlocks (Intn (newRNG key (Salt ?c))) (length (Quarterimage ?c))
               (map (\<lambda>i. (Quarterimage ?c ! i, 0, 0,
                           Quarterimage ?c ! i + Qtable ?c ! unat (Qdiffs ?c ! i)))
                  [0..<length (Quarterimage ?c)]) = Some (map ?g (pairs_of hf), pos')"
    using up0 by simp
  have a4: "length (map ?g (pairs_of hf)) = length (Quarterimage ?c)"
    using lhf' by (simp add: pairs_of_def)
  have a5: "even (nat (Width ?c))" using d(1) by simp
  have a6: "nat (Height ?c) div 2 * (nat (Width ?c) div 2) \<le> length (Quarterimage ?c)"
    using e(1) n by simp
  have a7: "nat (Width ?c) * (2 * (nat (Height ?c) div 2)) \<le> length (Quarterimage ?c) * 4"
    using e(2) e(4) n by simp
  from decrypt_eq [where newRNG = newRNG and key = key, OF a1 a2 a3 a4 a5 a6 a7]
  obtain px where
    dec: "decrypt newRNG ?c key =
            Some (Inr \<lparr>Width = Width img, Height = Height img,
                       PadWidth = PadHeight img, PadHeight = PadHeight img, Image = px\<rparr>)"
    and lpx: "length px = ?n * 4"
    and vpx: "\<forall>b < ?h div 2 * (?w div 2).
                 px ! tl_pos ?w b = q0 (map ?g (pairs_of hf) ! b) - ?rng b \<and>
                 px ! br_pos ?w b = q3 (map ?g (pairs_of hf) ! b) - ?rng b"
    by auto
  let ?out = "\<lparr>Width = Width img, Height = Height img,
                       PadWidth = PadHeight img, PadHeight = PadHeight img, Image = px\<rparr>"
  have same: "px ! tl_pos ?w b = Image img ! tl_pos ?w b \<and>
              px ! br_pos ?w b = Image img ! br_pos ?w b"
    if b: "b < ?h div 2 * (?w div 2)" for b
  proof -
    have "b < length (Image img) div 4" using b e(1) by linarith
    then have "b < length hf div 2" using n lhf' by simp
    then have "map ?g (pairs_of hf) ! b = (hf ! (2 * b), 0, 0, hf ! (2 * b + 1))"
      by (simp add: pairs_of_def)
    then have "q0 (map ?g (pairs_of hf) ! b) = hf ! (2 * b)"
      "q3 (map ?g (pairs_of hf) ! b) = hf ! (2 * b + 1)"
      by (simp_all add: q0_def q3_def)
    then show ?thesis using vpx val b by simp
  qed
  have pix: "px ! (2 * y * ?w + 2 * x) = Image img ! (2 * y * ?w + 2 * x) \<and>
             px ! ((2 * y + 1) * ?w + (2 * x + 1)) = Image img ! ((2 * y + 1) * ?w + (2 * x + 1))"
    if x: "x < ?w div 2" and y: "y < ?h div 2" for x y
  proof -
    have "Suc y * (?w div 2) \<le> ?h div 2 * (?w div 2)" using y by (intro mult_le_mono1) simp
    then have "y * (?w div 2) + x < ?h div 2 * (?w div 2)" using x by simp
    from same [OF this] show ?thesis
      unfolding block_pos [OF d(1) x] .
  qed
  have "Decrypt Decode newRNG ?cimg key = Some (Inr ?out)" using dec0 dec by simp
  moreover have "length (Image ?out) = length (Image img)" using lpx n e(4) by simp
  ultimately show ?thesis
    using enc cmp pix
    by (intro exI [of _ ?enc] exI [of _ ?cimg] exI [of _ ?out]) simp
qed

text \<open>
  The image of one block with pixels 1, 2, 3, 4, the keystream of zeros and the codec that
  copies: the decrypted image has 1 at its top-left and 4 at its bottom-right pixel.
\<close>

theorem roundtrip_keeps_block_diagonal_witness:
  "\<exists>enc cimg out.
     Encrypt zero_rng (Inr [])
       \<lparr>Width = 2, Height = 2, PadWidth = False, PadHeight = False, Image = [1, 2, 3, 4]\<rparr> [] =
       Some (Inr enc) \<and>
     Compress copy_codec enc 1 = Some (Inr cimg) \<and>
     Decrypt copy_codec zero_rng cimg [] = Some (Inr out) \<and>
     Width out = 2 \<and> Height out = 2 \<and> length (Image out) = 4 \<and>
     Image out ! 0 = 1 \<and> Image out ! 3 = 4"
proof -
  let ?img = "\<lparr>Width = 2, Height = 2, PadWidth = False, PadHeight = False,
                Image = [1, 2, 3, 4 :: byte]\<rparr>"
  have a: "even (Width ?img)" "even (Height ?img)"
    "int (length (Image ?img)) = Width ?img * Height ?img" by simp_all
  have b: "\<forall>pos n. 0 < n \<longrightarrow> Intn (zero_rng [] []) pos n \<noteq> None"
    by (simp add: zero_rng_def Intn_zero_stream)
  have c: "\<forall>enc c. Encrypt zero_rng (Inr []) ?img [] = Some (Inr enc) \<longrightarrow>
                  compress enc 1 = Some (Inr c) \<longrightarrow>
                  (\<exists>e. copy_codec (length (Qdiffs c)) (Qdiffs c) = Inr e \<and>
                       copy_codec (length (Quarterimage c)) e = Inr (Qdiffs c))"
    by (simp add: copy_codec_def)
  from roundtrip_keeps_block_diagonal [where newRNG = zero_rng and key = "[]" and salt = "[]" and Encode = copy_codec and Decode = copy_codec, OF a refl b c]
  obtain enc cimg out where
    r: "Encrypt zero_rng (Inr []) ?img [] = Some (Inr enc)"
      "Compress copy_codec enc 1 = Some (Inr cimg)"
      "Decrypt copy_codec zero_rng cimg [] = Some (Inr out)"
      "Width out = Width ?img" "Height out = Height ?img"
      "length (Image out) = length (Image ?img)"
    and p: "\<forall>x y. x < nat (Width ?img) div 2 \<longrightarrow> y < nat (Height ?img) div 2 \<longrightarrow>
              Image out ! (2 * y * nat (Width ?img) + 2 * x) =
                Image ?img ! (2 * y * nat (Width ?img) + 2 * x) \<and>
              Image out ! ((2 * y + 1) * nat (Width ?img) + (2 * x + 1)) =
                Image ?img ! ((2 * y + 1) * nat (Width ?img) + (2 * x + 1))"
    by blast
  from p [rule_format, of 0 0] have "Image out ! 0 = 1 \<and> Image out ! 3 = 4" by simp
  then show ?thesis using r by (intro exI [of _ enc] exI [of _ cimg] exI [of _ out]) simp
qed

end
